theory Spec2Isabelle
  imports Main "HOL-Library.Sublist" "HOL-Library.Product_Lexorder" "HOL-Library.Multiset"
begin

section \<open>Strings as Python sees them\<close>

text \<open>
  The scraper works on Python \<open>str\<close> values. They are modelled as \<^typ>\<open>string\<close>,
  a list of characters that stand for the code points 0 to 255 (ASCII and Latin-1);
  text with code points beyond 255 lies outside the model. On these code points
  \<open>str.isspace\<close>, \<open>str.lower\<close>, \<open>\d\<close> and \<open>\w\<close> are as written below.
\<close>

definition code :: "char \<Rightarrow> int" where
  "code c = of_char c"

definition is_upper :: "char \<Rightarrow> bool" where
  "is_upper c = (65 \<le> code c \<and> code c \<le> 90)"

definition is_lower :: "char \<Rightarrow> bool" where
  "is_lower c = (97 \<le> code c \<and> code c \<le> 122)"

definition is_digit :: "char \<Rightarrow> bool" where
  "is_digit c = (48 \<le> code c \<and> code c \<le> 57)"

definition is_alpha :: "char \<Rightarrow> bool" where
  "is_alpha c = (is_upper c \<or> is_lower c)"

text \<open>
  The regular-expression class \<open>\w\<close>: the underscore and what \<open>str.isalnum\<close> accepts,
  that is the ASCII letters and digits and, in Latin-1, the letters (170, 181, 186,
  192 to 214, 216 to 246, 248 to 255) and the numeric signs (178, 179, 185, 188 to 190).
\<close>

definition is_word :: "char \<Rightarrow> bool" where
  "is_word c =
     (is_alpha c \<or> is_digit c \<or> c = CHR ''_'' \<or>
      code c = 170 \<or> code c = 178 \<or> code c = 179 \<or> code c = 181 \<or>
      code c = 185 \<or> code c = 186 \<or> (188 \<le> code c \<and> code c \<le> 190) \<or>
      (192 \<le> code c \<and> code c \<le> 214) \<or> (216 \<le> code c \<and> code c \<le> 246) \<or>
      (248 \<le> code c \<and> code c \<le> 255))"

text \<open>
  \<open>str.isspace\<close>: tab, line feed, vertical tab, form feed, carriage return, the four
  separators 28 to 31, the space, and in Latin-1 the next-line control (133) and the
  no-break space (160).
\<close>

definition is_space :: "char \<Rightarrow> bool" where
  "is_space c =
     ((9 \<le> code c \<and> code c \<le> 13) \<or> (28 \<le> code c \<and> code c \<le> 32) \<or>
      code c = 133 \<or> code c = 160)"

text \<open>
  \<open>str.lower\<close>: the capital letters A to Z and, in Latin-1, 192 to 214 and 216 to 222
  move up by 32; every other character stays.
\<close>

definition lower_char :: "char \<Rightarrow> char" where
  "lower_char c =
     (if is_upper c \<or> (192 \<le> code c \<and> code c \<le> 214) \<or> (216 \<le> code c \<and> code c \<le> 222)
      then char_of (code c + 32) else c)"

definition lower :: "string \<Rightarrow> string" where
  "lower s = map lower_char s"

definition lstrip :: "string \<Rightarrow> string" where
  "lstrip s = dropWhile is_space s"

definition rstrip :: "string \<Rightarrow> string" where
  "rstrip s = rev (dropWhile is_space (rev s))"

definition strip :: "string \<Rightarrow> string" where
  "strip s = rstrip (lstrip s)"

text \<open>\<open>s.rstrip(":")\<close> removes every trailing colon.\<close>

definition rstrip_colon :: "string \<Rightarrow> string" where
  "rstrip_colon s = rev (dropWhile (\<lambda>c. c = CHR '':'') (rev s))"

definition endswith :: "string \<Rightarrow> string \<Rightarrow> bool" where
  "endswith s t = suffix t s"

definition startswith :: "string \<Rightarrow> string \<Rightarrow> bool" where
  "startswith s t = prefix t s"

text \<open>\<open>t in s\<close> on strings: \<open>t\<close> occurs in \<open>s\<close> as a contiguous block.\<close>

definition contains :: "string \<Rightarrow> string \<Rightarrow> bool" where
  "contains s t = sublist t s"

section \<open>Rows of a statement\<close>

text \<open>
  A Python \<open>dict\<close> keeps its keys in insertion order, and the merger iterates over
  one, so \<open>date_values\<close> is an association list: assigning to a key that is present
  replaces the value where the key stands, a new key goes to the end.
\<close>

type_synonym pydict = "(string \<times> string) list"

fun dict_set :: "pydict \<Rightarrow> string \<Rightarrow> string \<Rightarrow> pydict" where
  "dict_set [] k v = [(k, v)]"
| "dict_set ((k', v') # d) k v = (if k' = k then (k, v) # d else (k', v') # dict_set d k v)"

definition dict_keys :: "pydict \<Rightarrow> string list" where
  "dict_keys d = map fst d"

text \<open>
  The row dictionaries of \<open>extract_line_items_with_sections\<close>:
  \<open>{"type", "section_name", "line_label", "date_values"}\<close>.
\<close>

record row =
  type :: string
  section_name :: string
  line_label :: string
  date_values :: pydict

datatype error = ValueError | KeyError

section \<open>Step 3: the section override\<close>

definition adjust_line_section :: "row \<Rightarrow> string" where
  "adjust_line_section r =
     (if type r \<noteq> ''line'' then section_name r
      else let line_lower = lower (line_label r) in
        if contains line_lower ''accounts payable''
           \<or> contains line_lower ''accrued and other current liabilities''
        then ''Current liabilities''
        else if startswith line_lower ''common stock, $0.01 par value''
        then ''Post-Statement''
        else section_name r)"

section \<open>Calendar dates\<close>

text \<open>
  A \<open>datetime\<close> value restricted to its date part. Python only builds valid ones:
  years 1 to 9999, months 1 to 12, days within the month.
\<close>

record date =
  year :: int
  month :: int
  day :: int

definition is_leap :: "int \<Rightarrow> bool" where
  "is_leap y = (y mod 4 = 0 \<and> (y mod 100 \<noteq> 0 \<or> y mod 400 = 0))"

definition days_in_month :: "int \<Rightarrow> int \<Rightarrow> int" where
  "days_in_month y m =
     (if m = 2 then (if is_leap y then 29 else 28)
      else if m = 4 \<or> m = 6 \<or> m = 9 \<or> m = 11 then 30 else 31)"

definition valid_date :: "date \<Rightarrow> bool" where
  "valid_date d =
     (1 \<le> year d \<and> year d \<le> 9999 \<and> 1 \<le> month d \<and> month d \<le> 12 \<and>
      1 \<le> day d \<and> day d \<le> days_in_month (year d) (month d))"

text \<open>
  The proleptic Gregorian ordinal of \<open>datetime\<close> (\<open>_ymd2ord\<close>); the \<open>days\<close> of a
  difference of two midnights is the difference of their ordinals.
\<close>

definition days_before_year :: "int \<Rightarrow> int" where
  "days_before_year y =
     (let y1 = y - 1 in y1 * 365 + y1 div 4 - y1 div 100 + y1 div 400)"

definition days_before_month :: "int \<Rightarrow> int \<Rightarrow> int" where
  "days_before_month y m =
     [0, 31, 59, 90, 120, 151, 181, 212, 243, 273, 304, 334] ! nat (m - 1)
       + (if 2 < m \<and> is_leap y then 1 else 0)"

definition toordinal :: "date \<Rightarrow> int" where
  "toordinal d = days_before_year (year d) + days_before_month (year d) (month d) + day d"

subsection \<open>\<open>strftime("%Y-%m-%d")\<close>\<close>

definition digit_char :: "int \<Rightarrow> char" where
  "digit_char n = char_of (48 + n)"

definition digit_val :: "char \<Rightarrow> int" where
  "digit_val c = code c - 48"

definition pad2 :: "int \<Rightarrow> string" where
  "pad2 n = [digit_char (n div 10 mod 10), digit_char (n mod 10)]"


text \<open>
  The decimal text of a natural number, as \<open>str\<close> and \<open>f"Line_{row_i}"\<close> write it:
  no padding.
\<close>

fun str_of_nat :: "nat \<Rightarrow> string" where
  "str_of_nat n =
     (if n < 10 then [digit_char (int n)]
      else str_of_nat (n div 10) @ [digit_char (int (n mod 10))])"

declare str_of_nat.simps [simp del]

text \<open>The same for an integer that is not negative, as the C library writes a year.\<close>

function dec_text :: "int \<Rightarrow> string" where
  "dec_text n =
     (if n < 10 then [digit_char n]
      else dec_text (n div 10) @ [digit_char (n mod 10)])"
  by pat_completeness auto
termination
  by (relation "measure nat") auto

declare dec_text.simps [simp del]

text \<open>
  CPython hands the format to the C library. With glibc (CPython on Linux)
  \<open>%Y\<close> is the year in decimal without padding (\<open>999-01-01\<close> for the year 999), and
  \<open>%m\<close> and \<open>%d\<close> have two digits.
\<close>

definition strftime :: "date \<Rightarrow> string" where
  "strftime d = dec_text (year d) @ ''-'' @ pad2 (month d) @ ''-'' @ pad2 (day d)"

subsection \<open>\<open>datetime.strptime(s, "%Y-%m-%d")\<close>\<close>

text \<open>
  CPython turns the format into the regular expression
  \<open>(?P<Y>\d\d\d\d)-(?P<m>1[0-2]|0[1-9]|[1-9])-(?P<d>3[0-1]|[1-2]\d|0[1-9]|[1-9]| [1-9])\<close>,
  matches it at the start of the string, refuses a string with characters left over,
  and then builds the date, which refuses an impossible one. Each group below takes the
  first alternative that matches, as the regular expression does (after the month a
  hyphen must follow, so no later alternative can succeed where an earlier one matched).
\<close>

definition is_digit19 :: "char \<Rightarrow> bool" where
  "is_digit19 c = (49 \<le> code c \<and> code c \<le> 57)"

fun match_Y :: "string \<Rightarrow> (int \<times> string) option" where
  "match_Y (a # b # c # d # rest) =
     (if is_digit a \<and> is_digit b \<and> is_digit c \<and> is_digit d
      then Some (1000 * digit_val a + 100 * digit_val b + 10 * digit_val c + digit_val d, rest)
      else None)"
| "match_Y _ = None"

fun match_m :: "string \<Rightarrow> (int \<times> string) option" where
  "match_m (a # b # rest) =
     (if a = CHR ''1'' \<and> (b = CHR ''0'' \<or> b = CHR ''1'' \<or> b = CHR ''2'')
        then Some (10 + digit_val b, rest)
      else if a = CHR ''0'' \<and> is_digit19 b then Some (digit_val b, rest)
      else if is_digit19 a then Some (digit_val a, b # rest)
      else None)"
| "match_m [a] = (if is_digit19 a then Some (digit_val a, []) else None)"
| "match_m [] = None"

fun match_d :: "string \<Rightarrow> (int \<times> string) option" where
  "match_d (a # b # rest) =
     (if a = CHR ''3'' \<and> (b = CHR ''0'' \<or> b = CHR ''1'') then Some (30 + digit_val b, rest)
      else if (a = CHR ''1'' \<or> a = CHR ''2'') \<and> is_digit b
        then Some (10 * digit_val a + digit_val b, rest)
      else if a = CHR ''0'' \<and> is_digit19 b then Some (digit_val b, rest)
      else if is_digit19 a then Some (digit_val a, b # rest)
      else if a = CHR '' '' \<and> is_digit19 b then Some (digit_val b, rest)
      else None)"
| "match_d [a] = (if is_digit19 a then Some (digit_val a, []) else None)"
| "match_d [] = None"

fun expect_hyphen :: "string \<Rightarrow> string option" where
  "expect_hyphen (c # rest) = (if c = CHR ''-'' then Some rest else None)"
| "expect_hyphen [] = None"

text \<open>\<open>None\<close> stands for the \<open>ValueError\<close> that \<open>strptime\<close> raises.\<close>

definition strptime :: "string \<Rightarrow> date option" where
  "strptime s =
     (case match_Y s of None \<Rightarrow> None
      | Some (y, s1) \<Rightarrow>
     (case expect_hyphen s1 of None \<Rightarrow> None
      | Some s2 \<Rightarrow>
     (case match_m s2 of None \<Rightarrow> None
      | Some (m, s3) \<Rightarrow>
     (case expect_hyphen s3 of None \<Rightarrow> None
      | Some s4 \<Rightarrow>
     (case match_d s4 of None \<Rightarrow> None
      | Some (d, s5) \<Rightarrow>
       if s5 \<noteq> [] then None
       else let dt = \<lparr>year = y, month = m, day = d\<rparr>
            in if valid_date dt then Some dt else None)))))"

section \<open>Step 5: the date canonicalizer\<close>

text \<open>
  \<open>re.sub(r"\(.*?\)", "", s)\<close>: at an opening parenthesis the lazy \<open>.*?\<close> runs to the
  first closing parenthesis, and \<open>.\<close> does not match a line feed, so the group is removed
  when a closing parenthesis comes before any line feed; otherwise the parenthesis stays.
\<close>

fun find_close :: "string \<Rightarrow> string option" where
  "find_close [] = None"
| "find_close (c # cs) =
     (if c = CHR '')'' then Some cs
      else if c = CHR 0x0A then None
      else find_close cs)"

lemma find_close_length [termination_simp]:
  "find_close cs = Some rest \<Longrightarrow> length rest < Suc (length cs)"
  by (induction cs) (auto split: if_splits)

fun sub_parens :: "string \<Rightarrow> string" where
  "sub_parens [] = []"
| "sub_parens (c # cs) =
     (if c = CHR ''(''
      then (case find_close cs of
              Some rest \<Rightarrow> sub_parens rest
            | None \<Rightarrow> c # sub_parens cs)
      else c # sub_parens cs)"

text \<open>
  \<open>re.sub(r"\b(\w+)\.", r"\1", s)\<close>: a word (a maximal run of word characters, which
  is where \<open>\b(\w+)\<close> matches) followed by a period loses that period. The scan goes on
  after the removed period, so of two periods in a row the second one stays.
\<close>

fun sub_word_dot :: "string \<Rightarrow> string" where
  "sub_word_dot (c # d # cs) =
     (if is_word c \<and> d = CHR ''.'' then c # sub_word_dot cs
      else c # sub_word_dot (d # cs))"
| "sub_word_dot [c] = [c]"
| "sub_word_dot [] = []"

text \<open>
  \<open>dateutil.parser.parse(s, fuzzy=True)\<close> is a library outside the repository (and it
  fills missing fields from the current day): it is a parameter of the model, a function
  that returns the date it read, or \<open>None\<close> where the library raises.
\<close>

type_synonym fuzzy_parser = "string \<Rightarrow> date option"

definition base_label :: "string \<Rightarrow> string" where
  "base_label dlabel = sub_word_dot (strip (sub_parens dlabel))"

definition parse_date_label :: "fuzzy_parser \<Rightarrow> string \<Rightarrow> string" where
  "parse_date_label fuzzy dlabel =
     (case fuzzy (base_label dlabel) of
        Some dt \<Rightarrow> strftime dt
      | None \<Rightarrow> base_label dlabel)"

section \<open>Step 4: extracting line items with sections\<close>

text \<open>
  The table is the \<open>DataFrame\<close> that \<open>parse_single_statement_table\<close> builds from
  lists of cell texts: a list of rows, every cell a string or, where pandas padded a
  short row, \<open>None\<close>. \<open>df.empty\<close> holds when there is no row or no column.
\<close>

type_synonym cell = "string option"
type_synonym dataframe = "cell list list"

definition shape1 :: "dataframe \<Rightarrow> nat" where
  "shape1 df = (case df of [] \<Rightarrow> 0 | r # _ \<Rightarrow> length r)"

definition df_empty :: "dataframe \<Rightarrow> bool" where
  "df_empty df = (df = [] \<or> shape1 df = 0)"

text \<open>\<open>str(x)\<close> and \<open>(x or "")\<close> on a cell.\<close>

fun py_str :: "cell \<Rightarrow> string" where
  "py_str None = ''None''"
| "py_str (Some s) = s"

fun or_empty :: "cell \<Rightarrow> string" where
  "or_empty None = []"
| "or_empty (Some s) = s"

text \<open>
  \<open>re.search(r"(20\d{2}|19\d{2}|Dec|Mar|Sep|Jun|Feb|Jan|Jul|Aug|Nov|Oct|Apr|May)", s,
  re.IGNORECASE)\<close>: one of the alternatives matches at some position of \<open>s\<close>.
\<close>

fun year_at :: "string \<Rightarrow> bool" where
  "year_at (a # b # c # d # _) =
     (((a = CHR ''2'' \<and> b = CHR ''0'') \<or> (a = CHR ''1'' \<and> b = CHR ''9''))
      \<and> is_digit c \<and> is_digit d)"
| "year_at _ = False"

definition months :: "string list" where
  "months = [''dec'', ''mar'', ''sep'', ''jun'', ''feb'', ''jan'', ''jul'', ''aug'',
             ''nov'', ''oct'', ''apr'', ''may'']"

definition month_at :: "string \<Rightarrow> bool" where
  "month_at s = (lower (take 3 s) \<in> set months)"

fun dateish :: "string \<Rightarrow> bool" where
  "dateish [] = False"
| "dateish (c # cs) = (year_at (c # cs) \<or> month_at (c # cs) \<or> dateish cs)"

definition date_count :: "cell list \<Rightarrow> nat" where
  "date_count row_values = length (filter (\<lambda>x. dateish (py_str x)) row_values)"

text \<open>
  The loop over \<open>range(min(3, len(df)))\<close> stops at the first row with
  \<open>date_count >= len(row_values) // 2\<close>; without one the index is 0.
\<close>

definition date_row_index :: "dataframe \<Rightarrow> nat" where
  "date_row_index df =
     (case find (\<lambda>i. length (df ! i) div 2 \<le> date_count (df ! i)) [0..<min 3 (length df)] of
        Some i \<Rightarrow> i
      | None \<Rightarrow> 0)"

text \<open>
  \<open>mostly_caps\<close>: the quotient of two string lengths is compared with the float
  \<open>0.7\<close>; for lengths below \<open>10^15\<close> the float comparison agrees with the exact one
  written here.
\<close>

definition mostly_caps :: "string \<Rightarrow> bool" where
  "mostly_caps s =
     (let alpha = filter is_alpha s in
      if alpha = [] then False
      else 7 * length alpha < 10 * length (filter is_upper alpha))"

definition non_empty :: "cell list \<Rightarrow> nat" where
  "non_empty row_data =
     length (filter (\<lambda>x. or_empty x \<noteq> [] \<and> strip (py_str x) \<noteq> []) row_data)"

definition is_section_heading :: "cell list \<Rightarrow> bool" where
  "is_section_heading row_data =
     (let label_str = strip (or_empty (row_data ! 0)) in
      non_empty row_data \<le> 2 \<and> (mostly_caps label_str \<or> endswith label_str '':''))"

definition section_row :: "string \<Rightarrow> row" where
  "section_row current_section =
     \<lparr>type = ''section'', section_name = current_section, line_label = [], date_values = []\<rparr>"

definition collect_date_vals :: "string list \<Rightarrow> cell list \<Rightarrow> pydict" where
  "collect_date_vals date_labels row_data =
     fold (\<lambda>col_i date_vals.
            if col_i < length date_labels then
              let dlabel = date_labels ! col_i;
                  val_str = strip (or_empty (row_data ! col_i))
              in if val_str \<noteq> [] then dict_set date_vals dlabel val_str else date_vals
            else date_vals)
          [1..<length row_data] []"

definition line_item :: "string list \<Rightarrow> nat \<Rightarrow> string \<Rightarrow> cell list \<Rightarrow> row" where
  "line_item date_labels row_i current_section row_data =
     (let label_str = strip (or_empty (row_data ! 0));
          row_dict = \<lparr>type = ''line'', section_name = current_section,
                      line_label = (if label_str \<noteq> [] then label_str
                                    else ''Line_'' @ str_of_nat row_i),
                      date_values = collect_date_vals date_labels row_data\<rparr>
      in row_dict\<lparr>section_name := adjust_line_section row_dict\<rparr>)"

text \<open>
  One turn of the loop over the data rows; the state is \<open>current_section\<close> and
  \<open>output_rows\<close>.
\<close>

definition seg_step :: "string list \<Rightarrow> dataframe \<Rightarrow> nat \<Rightarrow> string \<times> row list \<Rightarrow> string \<times> row list" where
  "seg_step date_labels df row_i st =
     (case st of (current_section, output_rows) \<Rightarrow>
      let row_data = df ! row_i in
      if row_data = [] then (current_section, output_rows)
      else if is_section_heading row_data then
        (let current_section' = rstrip_colon (strip (or_empty (row_data ! 0)))
         in (current_section', output_rows @ [section_row current_section']))
      else (current_section,
            output_rows @ [line_item date_labels row_i current_section row_data]))"

definition seg_run :: "string list \<Rightarrow> dataframe \<Rightarrow> nat \<Rightarrow> nat \<Rightarrow> string \<times> row list \<Rightarrow> string \<times> row list" where
  "seg_run date_labels df a b st = fold (seg_step date_labels df) [a..<b] st"

definition header_labels :: "dataframe \<Rightarrow> string list" where
  "header_labels df = map (\<lambda>x. strip (or_empty x)) (df ! date_row_index df)"

definition extract_line_items_with_sections :: "dataframe \<Rightarrow> row list" where
  "extract_line_items_with_sections df =
     (if df_empty df \<or> shape1 df < 2 then []
      else snd (seg_run (header_labels df) df (date_row_index df + 1) (length df) ([], [])))"

section \<open>Step 5: merging into the master sheet\<close>

subsection \<open>\<open>select_closest_date\<close>\<close>

text \<open>
  The loop state is \<open>(best_key, best_diff, best_canon)\<close>. A label whose canonical
  form \<open>strptime\<close> refuses is skipped (\<open>continue\<close>); a strictly smaller distance
  replaces the best so far.
\<close>

type_synonym best = "string option \<times> int option \<times> string option"

definition closest_step :: "fuzzy_parser \<Rightarrow> date \<Rightarrow> string \<Rightarrow> best \<Rightarrow> best" where
  "closest_step fuzzy filing_date raw_date st =
     (case st of (best_key, best_diff, best_canon) \<Rightarrow>
      let canon = parse_date_label fuzzy raw_date in
      case strptime canon of
        None \<Rightarrow> (best_key, best_diff, best_canon)
      | Some dt \<Rightarrow>
          let diff = \<bar>toordinal filing_date - toordinal dt\<bar> in
          if (case best_diff of None \<Rightarrow> True | Some b \<Rightarrow> diff < b)
          then (Some raw_date, Some diff, Some canon)
          else (best_key, best_diff, best_canon))"

text \<open>
  An empty dictionary returns before the filing date is read; otherwise a filing date
  that \<open>strptime\<close> refuses raises \<open>ValueError\<close>.
\<close>

definition select_closest_date ::
    "fuzzy_parser \<Rightarrow> pydict \<Rightarrow> string \<Rightarrow> error + (string option \<times> string option)" where
  "select_closest_date fuzzy date_vals filing_date_str =
     (if date_vals = [] then Inr (None, None)
      else case strptime filing_date_str of
        None \<Rightarrow> Inl ValueError
      | Some filing_date \<Rightarrow>
          (case fold (closest_step fuzzy filing_date) (dict_keys date_vals) (None, None, None) of
             (best_key, best_diff, best_canon) \<Rightarrow> Inr (best_key, best_canon)))"

subsection \<open>The accumulator\<close>

type_synonym master_key = "string \<times> string \<times> string"

record master =
  master_order :: "master_key list"
  master_data :: "master_key \<rightharpoonup> (string \<rightharpoonup> string)"
  all_dates :: "string set"

record statement =
  filing_key :: string
  filing_date :: string
  rows :: "row list"

definition master_init :: master where
  "master_init = \<lparr>master_order = [], master_data = Map.empty, all_dates = {}\<rparr>"

definition row_key :: "row \<Rightarrow> master_key" where
  "row_key r = (type r, section_name r, line_label r)"

text \<open>
  The body of the loop over the rows. A dictionary read of a missing key would raise
  \<open>KeyError\<close>; an exception leaves the function, so it ends the merge.
\<close>

definition merge_row :: "fuzzy_parser \<Rightarrow> string \<Rightarrow> master \<Rightarrow> row \<Rightarrow> error + master" where
  "merge_row fuzzy fdate m r =
     (let key = row_key r;
          order' = (if key \<notin> set (master_order m) then master_order m @ [key]
                    else master_order m);
          data' = (if master_data m key = None then (master_data m)(key \<mapsto> Map.empty)
                   else master_data m)
      in case select_closest_date fuzzy (date_values r) fdate of
           Inl e \<Rightarrow> Inl e
         | Inr (best_raw, best_canon) \<Rightarrow>
            (case best_canon of
               None \<Rightarrow> Inr (m\<lparr>master_order := order', master_data := data'\<rparr>)
             | Some canon \<Rightarrow>
                (case best_raw of
                   None \<Rightarrow> Inl KeyError
                 | Some raw \<Rightarrow>
                    (case map_of (date_values r) raw of
                       None \<Rightarrow> Inl KeyError
                     | Some val \<Rightarrow>
                        (case data' key of
                           None \<Rightarrow> Inl KeyError
                         | Some cells \<Rightarrow>
                            Inr \<lparr>master_order = order',
                                 master_data = data'(key \<mapsto> cells(canon \<mapsto> val)),
                                 all_dates = insert canon (all_dates m)\<rparr>)))))"

fun merge_rows :: "fuzzy_parser \<Rightarrow> string \<Rightarrow> master \<Rightarrow> row list \<Rightarrow> error + master" where
  "merge_rows fuzzy fdate m [] = Inr m"
| "merge_rows fuzzy fdate m (r # rs) =
     (case merge_row fuzzy fdate m r of
        Inl e \<Rightarrow> Inl e
      | Inr m' \<Rightarrow> merge_rows fuzzy fdate m' rs)"

fun merge_loop :: "fuzzy_parser \<Rightarrow> master \<Rightarrow> statement list \<Rightarrow> error + master" where
  "merge_loop fuzzy m [] = Inr m"
| "merge_loop fuzzy m (s # ss) =
     (case merge_rows fuzzy (filing_date s) m (rows s) of
        Inl e \<Rightarrow> Inl e
      | Inr m' \<Rightarrow> merge_loop fuzzy m' ss)"

subsection \<open>The final assembly\<close>

text \<open>
  \<open>parse_dt\<close> is the sort key: the midnight of the date read, or \<open>datetime.max\<close>.
  A \<open>datetime\<close> is compared field by field, year first.
\<close>

type_synonym datetime = "int \<times> int \<times> int \<times> int \<times> int \<times> int \<times> int"

definition datetime_max :: datetime where
  "datetime_max = (9999, 12, 31, 23, 59, 59, 999999)"

definition parse_dt :: "string \<Rightarrow> datetime" where
  "parse_dt s =
     (case strptime s of
        Some d \<Rightarrow> (year d, month d, day d, 0, 0, 0, 0)
      | None \<Rightarrow> datetime_max)"

text \<open>
  \<open>sorted(all_dates, key=parse_dt)\<close> is a stable sort of the elements of the set in
  the order in which Python iterates over it; that order is the argument \<open>iter\<close>.
\<close>

definition sorted_dates :: "string list \<Rightarrow> string list" where
  "sorted_dates iter = sort_key parse_dt iter"

fun collect :: "(error + 'a) list \<Rightarrow> error + 'a list" where
  "collect [] = Inr []"
| "collect (x # xs) =
     (case x of
        Inl e \<Rightarrow> Inl e
      | Inr v \<Rightarrow> (case collect xs of Inl e \<Rightarrow> Inl e | Inr vs \<Rightarrow> Inr (v # vs)))"

definition final_row :: "master \<Rightarrow> string list \<Rightarrow> master_key \<Rightarrow> error + string list" where
  "final_row m sdates key =
     (case key of (type_, sect_, line_) \<Rightarrow>
      if type_ = ''section'' then Inr (sect_ # replicate (length sdates) [])
      else (case master_data m key of
              None \<Rightarrow> Inl KeyError
            | Some cells \<Rightarrow>
                Inr ((''  '' @ line_) #
                     map (\<lambda>d. case cells d of Some v \<Rightarrow> v | None \<Rightarrow> []) sdates)))"

definition final_rows :: "master \<Rightarrow> string list \<Rightarrow> error + string list list" where
  "final_rows m sdates =
     (case collect (map (final_row m sdates) (master_order m)) of
        Inl e \<Rightarrow> Inl e
      | Inr body \<Rightarrow> Inr ((''Line / Section'' # sdates) # body))"

text \<open>
  The whole function; \<open>set_iter\<close> is the order in which Python iterates over the set
  of dates.
\<close>

definition merge_statements_into_master ::
    "fuzzy_parser \<Rightarrow> (string set \<Rightarrow> string list) \<Rightarrow> statement list \<Rightarrow> error + string list list" where
  "merge_statements_into_master fuzzy set_iter all_statements =
     (case merge_loop fuzzy master_init all_statements of
        Inl e \<Rightarrow> Inl e
      | Inr m \<Rightarrow> final_rows m (sorted_dates (set_iter (all_dates m))))"

section \<open>Specification-side notions\<close>

text \<open>
  A label contains (starts with) a pattern without regard to case when a block of it
  (its beginning) becomes the pattern once its capital letters are put in lower case.
  The patterns of the override rules are written in lower case.
\<close>

definition ci_contains :: "string \<Rightarrow> string \<Rightarrow> bool" where
  "ci_contains label pat = (\<exists>ps ms ss. label = ps @ ms @ ss \<and> lower ms = pat)"

definition ci_startswith :: "string \<Rightarrow> string \<Rightarrow> bool" where
  "ci_startswith label pat = (\<exists>ms ss. label = ms @ ss \<and> lower ms = pat)"

text \<open>
  The choice of the header row as the specification words it: the first of the first
  three rows whose count of date-like cells is at least half of its number of cells
  (twice the count reaches the number of cells), row 0 without one.
\<close>

definition spec_date_row_index :: "dataframe \<Rightarrow> nat" where
  "spec_date_row_index df =
     (case find (\<lambda>i. length (df ! i) \<le> 2 * date_count (df ! i)) [0..<min 3 (length df)] of
        Some i \<Rightarrow> i
      | None \<Rightarrow> 0)"



text \<open>
  The date that a raw label stands for (none where its canonical form is refused by
  \<open>strptime\<close>), its distance in days to the filing date, and the position of the
  selected label: the first position of minimum distance among the labels that have a
  date.
\<close>

definition label_date :: "fuzzy_parser \<Rightarrow> string \<Rightarrow> date option" where
  "label_date fuzzy raw = strptime (parse_date_label fuzzy raw)"

definition label_distance :: "fuzzy_parser \<Rightarrow> date \<Rightarrow> string \<Rightarrow> int option" where
  "label_distance fuzzy fd raw =
     (case label_date fuzzy raw of
        None \<Rightarrow> None
      | Some dt \<Rightarrow> Some \<bar>toordinal fd - toordinal dt\<bar>)"

definition closest_at :: "fuzzy_parser \<Rightarrow> date \<Rightarrow> string list \<Rightarrow> nat \<Rightarrow> bool" where
  "closest_at fuzzy fd ks i =
     (i < length ks \<and>
      (\<exists>b. label_distance fuzzy fd (ks ! i) = Some b \<and>
           (\<forall>j < length ks. \<forall>c. label_distance fuzzy fd (ks ! j) = Some c \<longrightarrow> b \<le> c) \<and>
           (\<forall>j < i. \<forall>c. label_distance fuzzy fd (ks ! j) = Some c \<longrightarrow> b < c)))"

text \<open>
  The bookkeeping of the merge, apart from the code: \<open>add_key\<close> is the update of
  \<open>master_order\<close> for one row; \<open>first_seen\<close> keeps of a list the elements at the
  positions where they appear for the first time; \<open>statement_keys\<close> lists the keys of
  all rows in processing order; \<open>row_write\<close> is the cell that one row stores (none when
  no date is selected), \<open>cell_writes\<close> all of them in processing order; \<open>cell\<close> reads
  \<open>master_data[key].get(date)\<close>.
\<close>

definition add_key :: "master_key \<Rightarrow> master_key list \<Rightarrow> master_key list" where
  "add_key k order = (if k \<in> set order then order else order @ [k])"

definition first_seen :: "'a list \<Rightarrow> 'a list" where
  "first_seen ks = map (\<lambda>i. ks ! i) (filter (\<lambda>i. ks ! i \<notin> set (take i ks)) [0..<length ks])"

definition statement_keys :: "statement list \<Rightarrow> master_key list" where
  "statement_keys stmts = concat (map (\<lambda>s. map row_key (rows s)) stmts)"

definition row_write :: "fuzzy_parser \<Rightarrow> string \<Rightarrow> row \<Rightarrow> ((master_key \<times> string) \<times> string) list" where
  "row_write fuzzy fdate r =
     (case select_closest_date fuzzy (date_values r) fdate of
        Inr (Some raw, Some canon) \<Rightarrow>
          (case map_of (date_values r) raw of
             Some val \<Rightarrow> [((row_key r, canon), val)]
           | None \<Rightarrow> [])
      | _ \<Rightarrow> [])"

definition cell_writes :: "fuzzy_parser \<Rightarrow> statement list \<Rightarrow> ((master_key \<times> string) \<times> string) list" where
  "cell_writes fuzzy stmts =
     concat (map (\<lambda>s. concat (map (row_write fuzzy (filing_date s)) (rows s))) stmts)"

definition cell :: "master \<Rightarrow> master_key \<times> string \<Rightarrow> string option" where
  "cell m kd = (case master_data m (fst kd) of None \<Rightarrow> None | Some cells \<Rightarrow> cells (snd kd))"

text \<open>The name that a heading row gives to its section: the trimmed first cell without its trailing colons.\<close>

definition heading_name :: "cell list \<Rightarrow> string" where
  "heading_name row_data = rstrip_colon (strip (or_empty (row_data ! 0)))"

section \<open>Verified properties\<close>

subsection \<open>The section override\<close>

lemma map_sublist_split:
  "sublist t (map f s) = (\<exists>ps ms ss. s = ps @ ms @ ss \<and> map f ms = t)"
proof
  assume "sublist t (map f s)"
  then have "\<exists>ps' ss'. map f s = ps' @ t @ ss'"
    by (simp only: sublist_def)
  then obtain ps' ss' where "map f s = ps' @ t @ ss'"
    by (elim exE)
  then have "\<exists>us vs. s = us @ vs \<and> ps' = map f us \<and> t @ ss' = map f vs"
    by (rule map_eq_append_conv[THEN iffD1])
  then obtain us vs where s: "s = us @ vs" and vs: "map f vs = t @ ss'"
    by (elim exE conjE) simp
  from vs have "\<exists>ms ss. vs = ms @ ss \<and> t = map f ms \<and> ss' = map f ss"
    by (rule map_eq_append_conv[THEN iffD1])
  then obtain ms ss where "vs = ms @ ss" and "map f ms = t"
    by (elim exE conjE) simp
  with s have "s = us @ ms @ ss \<and> map f ms = t"
    by simp
  then show "\<exists>ps ms ss. s = ps @ ms @ ss \<and> map f ms = t"
    by (intro exI)
next
  assume "\<exists>ps ms ss. s = ps @ ms @ ss \<and> map f ms = t"
  then obtain ps ms ss where "s = ps @ ms @ ss" and "map f ms = t"
    by (elim exE conjE)
  then have "map f s = map f ps @ t @ map f ss"
    by simp
  then show "sublist t (map f s)"
    unfolding sublist_def by (intro exI)
qed

lemma map_prefix_split:
  "prefix t (map f s) = (\<exists>ms ss. s = ms @ ss \<and> map f ms = t)"
proof
  assume "prefix t (map f s)"
  then obtain ss' where "map f s = t @ ss'"
    by (auto simp only: prefix_def)
  then have "\<exists>ms ss. s = ms @ ss \<and> t = map f ms \<and> ss' = map f ss"
    by (rule map_eq_append_conv[THEN iffD1])
  then obtain ms ss where "s = ms @ ss \<and> map f ms = t"
    by (elim exE conjE) simp
  then show "\<exists>ms ss. s = ms @ ss \<and> map f ms = t"
    by (intro exI)
next
  assume "\<exists>ms ss. s = ms @ ss \<and> map f ms = t"
  then obtain ms ss where "s = ms @ ss" and "map f ms = t"
    by (elim exE conjE)
  then have "map f s = t @ map f ss"
    by simp
  then show "prefix t (map f s)"
    unfolding prefix_def by (intro exI)
qed

lemma contains_lower: "contains (lower s) t = ci_contains s t"
  by (simp only: contains_def ci_contains_def lower_def map_sublist_split)

lemma startswith_lower: "startswith (lower s) t = ci_startswith s t"
  by (simp only: startswith_def ci_startswith_def lower_def map_prefix_split)

lemma adjust_line_section_keep:
  assumes "type r = ''line''"
    and "\<not> ci_contains (line_label r) ''accounts payable''"
    and "\<not> ci_contains (line_label r) ''accrued and other current liabilities''"
    and "\<not> ci_startswith (line_label r) ''common stock, $0.01 par value''"
  shows "adjust_line_section r = section_name r"
  using assms unfolding adjust_line_section_def Let_def contains_lower startswith_lower
  by simp

text \<open>
  C6. The override rules of \<open>adjust_line_section\<close>, taken in order: a line whose label
  contains "accounts payable" or "accrued and other current liabilities" (any case) goes
  to "Current liabilities" whatever its section was; otherwise a line whose label starts
  with "common stock, $0.01 par value" (any case) goes to "Post-Statement"; otherwise the
  section stays; a row that is not a line keeps its section.
\<close>

theorem adjust_line_section_rules:
  "(type r = ''line'' \<and>
      (ci_contains (line_label r) ''accounts payable'' \<or>
       ci_contains (line_label r) ''accrued and other current liabilities'')
      \<longrightarrow> adjust_line_section r = ''Current liabilities'') \<and>
   (type r = ''line'' \<and>
      \<not> ci_contains (line_label r) ''accounts payable'' \<and>
      \<not> ci_contains (line_label r) ''accrued and other current liabilities'' \<and>
      ci_startswith (line_label r) ''common stock, $0.01 par value''
      \<longrightarrow> adjust_line_section r = ''Post-Statement'') \<and>
   (type r = ''line'' \<and>
      \<not> ci_contains (line_label r) ''accounts payable'' \<and>
      \<not> ci_contains (line_label r) ''accrued and other current liabilities'' \<and>
      \<not> ci_startswith (line_label r) ''common stock, $0.01 par value''
      \<longrightarrow> adjust_line_section r = section_name r) \<and>
   (type r \<noteq> ''line'' \<longrightarrow> adjust_line_section r = section_name r)"
  unfolding adjust_line_section_def Let_def contains_lower startswith_lower
  by simp

theorem adjust_line_section_rules_witness:
  "adjust_line_section
     \<lparr>type = ''line'', section_name = ''LONG-TERM LIABILITIES'',
      line_label = ''Accrued and other current liabilities'', date_values = []\<rparr>
   = ''Current liabilities''"
proof -
  let ?r = "\<lparr>type = ''line'', section_name = ''LONG-TERM LIABILITIES'',
      line_label = ''Accrued and other current liabilities'', date_values = []\<rparr>"
  have low: "lower ''Accrued and other current liabilities'' = ''accrued and other current liabilities''"
    by code_simp
  have "ci_contains (line_label ?r) ''accrued and other current liabilities''"
    unfolding ci_contains_def
    by (rule exI[of _ "[]"], rule exI[of _ "''Accrued and other current liabilities''"], rule exI[of _ "[]"]) (simp add: low)
  then show ?thesis
    using adjust_line_section_rules[of ?r] by simp
qed

subsection \<open>The header row\<close>

lemma dateish_iff: "dateish s = (\<exists>ps ss. s = ps @ ss \<and> (year_at ss \<or> month_at ss))"
proof (induction s)
  case Nil
  then show ?case by (simp add: month_at_def months_def lower_def)
next
  case (Cons c cs)
  show ?case
  proof
    assume "dateish (c # cs)"
    then consider "year_at (c # cs) \<or> month_at (c # cs)" | "dateish cs"
      by auto
    then show "\<exists>ps ss. c # cs = ps @ ss \<and> (year_at ss \<or> month_at ss)"
    proof cases
      case 1
      then have "c # cs = [] @ (c # cs) \<and> (year_at (c # cs) \<or> month_at (c # cs))" by simp
      then show ?thesis by (intro exI)
    next
      case 2
      with Cons.IH obtain ps ss where "cs = ps @ ss" and "year_at ss \<or> month_at ss"
        by auto
      then have "c # cs = (c # ps) @ ss \<and> (year_at ss \<or> month_at ss)" by simp
      then show ?thesis by (intro exI)
    qed
  next
    assume "\<exists>ps ss. c # cs = ps @ ss \<and> (year_at ss \<or> month_at ss)"
    then obtain ps ss where eq: "c # cs = ps @ ss" and m: "year_at ss \<or> month_at ss"
      by auto
    show "dateish (c # cs)"
    proof (cases ps)
      case Nil
      with eq have "ss = c # cs" by simp
      with m show ?thesis unfolding dateish.simps by blast
    next
      case (Cons p ps')
      with eq have "cs = ps' @ ss" by simp
      with m Cons.IH have "dateish cs" by auto
      then show ?thesis by simp
    qed
  qed
qed

text \<open>
  C2 (as amended). The header row is the first of the first three rows (fewer when the
  table is shorter) whose count of date-like cells is at least half of its number of
  cells rounded down (\<open>len // 2\<close>), and row 0 when none of them is; for a table that is
  not empty and has two columns or more that row exists and the rows after it are the
  data rows the segmenter walks through, under the labels of that row.
\<close>

theorem date_row_index_floor_half:
  "((\<forall>i < min 3 (length df). \<not> length (df ! i) div 2 \<le> date_count (df ! i))
      \<longrightarrow> date_row_index df = 0) \<and>
   (\<forall>i. i < min 3 (length df) \<and> length (df ! i) div 2 \<le> date_count (df ! i) \<and>
        (\<forall>j < i. \<not> length (df ! j) div 2 \<le> date_count (df ! j))
      \<longrightarrow> date_row_index df = i) \<and>
   (\<not> df_empty df \<and> 2 \<le> shape1 df \<longrightarrow>
      date_row_index df < length df \<and>
      extract_line_items_with_sections df =
        snd (seg_run (map (\<lambda>x. strip (or_empty x)) (df ! date_row_index df)) df
               (date_row_index df + 1) (length df) ([], [])))"
proof (intro conjI impI allI)
  assume "\<forall>i < min 3 (length df). \<not> length (df ! i) div 2 \<le> date_count (df ! i)"
  then have "find (\<lambda>i. length (df ! i) div 2 \<le> date_count (df ! i)) [0..<min 3 (length df)] = None"
    by (simp add: find_None_iff)
  then show "date_row_index df = 0"
    by (simp add: date_row_index_def)
next
  fix i
  assume a: "i < min 3 (length df) \<and> length (df ! i) div 2 \<le> date_count (df ! i) \<and>
        (\<forall>j < i. \<not> length (df ! j) div 2 \<le> date_count (df ! j))"
  have "find (\<lambda>i. length (df ! i) div 2 \<le> date_count (df ! i)) [0..<min 3 (length df)] = Some i"
    unfolding find_Some_iff
  proof (rule exI[of _ i], intro conjI)
    show "i < length [0..<min 3 (length df)]" using a by simp
    show "length (df ! ([0..<min 3 (length df)] ! i)) div 2 \<le> date_count (df ! ([0..<min 3 (length df)] ! i))"
      using a by simp
    show "i = [0..<min 3 (length df)] ! i" using a by simp
    show "\<forall>j<i. \<not> length (df ! ([0..<min 3 (length df)] ! j)) div 2 \<le> date_count (df ! ([0..<min 3 (length df)] ! j))"
      using a by simp
  qed
  then show "date_row_index df = i"
    by (simp add: date_row_index_def)
next
  assume a: "\<not> df_empty df \<and> 2 \<le> shape1 df"
  then have ne: "df \<noteq> []" by (simp add: df_empty_def)
  show "date_row_index df < length df"
  proof (cases "find (\<lambda>i. length (df ! i) div 2 \<le> date_count (df ! i)) [0..<min 3 (length df)]")
    case None
    with ne show ?thesis by (simp add: date_row_index_def)
  next
    case (Some i)
    then have "i \<in> set [0..<min 3 (length df)]"
      by (auto simp: find_Some_iff)
    with Some show ?thesis by (simp add: date_row_index_def)
  qed
  from a show "extract_line_items_with_sections df =
        snd (seg_run (map (\<lambda>x. strip (or_empty x)) (df ! date_row_index df)) df
               (date_row_index df + 1) (length df) ([], []))"
    by (simp add: extract_line_items_with_sections_def header_labels_def)
qed

theorem date_row_index_floor_half_witness:
  "date_row_index
     [[Some ''Period'', Some ''2024'', Some ''''],
      [Some '''', Some ''Mar. 31, 2024'', Some ''Dec. 31, 2023''],
      [Some ''Cash'', Some ''100'', Some ''120'']] = 0"
proof -
  let ?df = "[[Some ''Period'', Some ''2024'', Some ''''],
      [Some '''', Some ''Mar. 31, 2024'', Some ''Dec. 31, 2023''],
      [Some ''Cash'', Some ''100'', Some ''120'']]"
  have c: "date_count (?df ! 0) = 1" by code_simp
  have "(0::nat) < min 3 (length ?df) \<and> length (?df ! 0) div 2 \<le> date_count (?df ! 0) \<and>
        (\<forall>j < (0::nat). \<not> length (?df ! j) div 2 \<le> date_count (?df ! j))"
    unfolding c by simp
  with date_row_index_floor_half[of ?df] show ?thesis
    by blast
qed

text \<open>
  C2 as stated fails: a row of three cells with one date-like cell is taken as the
  header (1 is at least 3 // 2), although 1 is less than half of 3; read with the exact
  half, the header of this table would be row 1.
\<close>

theorem date_row_index_half_counterexample:
  "date_row_index
     [[Some ''Period'', Some ''2024'', Some ''''],
      [Some '''', Some ''Mar. 31, 2024'', Some ''Dec. 31, 2023''],
      [Some ''Cash'', Some ''100'', Some ''120'']] = 0 \<and>
   date_count [Some ''Period'', Some ''2024'', Some ''''] = 1 \<and>
   length [Some ''Period'', Some ''2024'', Some ''''] = 3 \<and>
   spec_date_row_index
     [[Some ''Period'', Some ''2024'', Some ''''],
      [Some '''', Some ''Mar. 31, 2024'', Some ''Dec. 31, 2023''],
      [Some ''Cash'', Some ''100'', Some ''120'']] = 1"
  by code_simp

subsection \<open>Degenerate tables\<close>

text \<open>
  C9. A table that is empty or has fewer than two columns (a table of one row and one
  column among them) yields no rows, and merging a statement without rows returns the
  accumulator as it was: row order, cells and dates.
\<close>

theorem empty_table_robust:
  "(df_empty df \<or> shape1 df < 2 \<longrightarrow> extract_line_items_with_sections df = []) \<and>
   extract_line_items_with_sections [[c]] = [] \<and>
   (rows s = [] \<longrightarrow> merge_loop fuzzy m [s] = Inr m)"
  by (simp add: extract_line_items_with_sections_def shape1_def)

theorem empty_table_robust_witness:
  "extract_line_items_with_sections [] = [] \<and>
   extract_line_items_with_sections [[Some ''Total'']] = [] \<and>
   merge_loop strptime master_init
     [\<lparr>filing_key = ''10-Q_2024-05-01'', filing_date = ''2024-05-01'', rows = []\<rparr>]
     = Inr master_init"
  using empty_table_robust[of "[]" "Some ''Total''"
      "\<lparr>filing_key = ''10-Q_2024-05-01'', filing_date = ''2024-05-01'', rows = []\<rparr>"
      strptime master_init]
  by (simp add: df_empty_def)

subsection \<open>Reading back what \<open>strftime\<close> writes\<close>














lemma days_in_month_le: "days_in_month y m \<le> 31"
  by (simp add: days_in_month_def)




subsection \<open>The date canonicalizer\<close>


























subsection \<open>The closest date\<close>

lemma closest_step_alt:
  "closest_step fuzzy fd k (bk, bd, bc) =
     (case label_distance fuzzy fd k of
        None \<Rightarrow> (bk, bd, bc)
      | Some diff \<Rightarrow>
          if (case bd of None \<Rightarrow> True | Some b \<Rightarrow> diff < b)
          then (Some k, Some diff, Some (parse_date_label fuzzy k))
          else (bk, bd, bc))"
  by (simp add: closest_step_def label_distance_def label_date_def Let_def split: option.splits)

lemma closest_at_unique:
  assumes "closest_at fuzzy fd ks i" "closest_at fuzzy fd ks i'"
  shows "i = i'"
proof (rule ccontr)
  assume ne: "i \<noteq> i'"
  from assms obtain b b' where
    b: "i < length ks" "label_distance fuzzy fd (ks ! i) = Some b"
       "\<forall>j < length ks. \<forall>c. label_distance fuzzy fd (ks ! j) = Some c \<longrightarrow> b \<le> c"
       "\<forall>j < i. \<forall>c. label_distance fuzzy fd (ks ! j) = Some c \<longrightarrow> b < c" and
    b': "i' < length ks" "label_distance fuzzy fd (ks ! i') = Some b'"
       "\<forall>j < length ks. \<forall>c. label_distance fuzzy fd (ks ! j) = Some c \<longrightarrow> b' \<le> c"
       "\<forall>j < i'. \<forall>c. label_distance fuzzy fd (ks ! j) = Some c \<longrightarrow> b' < c"
    unfolding closest_at_def by blast
  from b(3) b'(1,2) have "b \<le> b'" by blast
  moreover from b'(3) b(1,2) have "b' \<le> b" by blast
  ultimately have eq: "b = b'" by simp
  from ne consider "i < i'" | "i' < i" by linarith
  then show False
  proof cases
    case 1
    with b'(4) b(2) have "b' < b" by blast
    with eq show False by simp
  next
    case 2
    with b(4) b'(2) have "b < b'" by blast
    with eq show False by simp
  qed
qed

lemma closest_fold:
  "(if \<forall>k \<in> set ks. label_distance fuzzy fd k = None
    then fold (closest_step fuzzy fd) ks (None, None, None) = (None, None, None)
    else \<exists>i. closest_at fuzzy fd ks i \<and>
           fold (closest_step fuzzy fd) ks (None, None, None)
             = (Some (ks ! i), label_distance fuzzy fd (ks ! i), Some (parse_date_label fuzzy (ks ! i))))"
proof (induction ks rule: rev_induct)
  case Nil
  show ?case by simp
next
  case (snoc k ks)
  let ?g = "label_distance fuzzy fd"
  let ?st = "fold (closest_step fuzzy fd) ks (None, None, None)"
  have step: "fold (closest_step fuzzy fd) (ks @ [k]) (None, None, None) = closest_step fuzzy fd k ?st"
    by simp
  show ?case
  proof (cases "\<forall>k \<in> set ks. ?g k = None")
    case allNone: True
    with snoc.IH have st: "?st = (None, None, None)" by simp
    show ?thesis
    proof (cases "?g k")
      case None
      with allNone st show ?thesis
        by (simp add: closest_step_alt)
    next
      case (Some diff)
      have "closest_at fuzzy fd (ks @ [k]) (length ks)"
        unfolding closest_at_def using allNone Some
        by (auto simp: nth_append)
      moreover have "closest_step fuzzy fd k ?st = (Some k, Some diff, Some (parse_date_label fuzzy k))"
        using Some st by (simp add: closest_step_alt)
      ultimately have "closest_at fuzzy fd (ks @ [k]) (length ks) \<and>
           fold (closest_step fuzzy fd) (ks @ [k]) (None, None, None)
             = (Some ((ks @ [k]) ! length ks), ?g ((ks @ [k]) ! length ks),
                Some (parse_date_label fuzzy ((ks @ [k]) ! length ks)))"
        using Some by (simp add: step)
      then have "\<exists>i. closest_at fuzzy fd (ks @ [k]) i \<and>
           fold (closest_step fuzzy fd) (ks @ [k]) (None, None, None)
             = (Some ((ks @ [k]) ! i), ?g ((ks @ [k]) ! i),
                Some (parse_date_label fuzzy ((ks @ [k]) ! i)))"
        by (rule exI)
      moreover have "\<not> (\<forall>k' \<in> set (ks @ [k]). ?g k' = None)"
        using Some by auto
      ultimately show ?thesis by (simp only: if_False)
    qed
  next
    case someParsed: False
    with snoc.IH obtain i where ca: "closest_at fuzzy fd ks i"
      and st: "?st = (Some (ks ! i), ?g (ks ! i), Some (parse_date_label fuzzy (ks ! i)))"
      by auto
    from ca obtain b where
      b: "i < length ks" "?g (ks ! i) = Some b"
         "\<forall>j < length ks. \<forall>c. ?g (ks ! j) = Some c \<longrightarrow> b \<le> c"
         "\<forall>j < i. \<forall>c. ?g (ks ! j) = Some c \<longrightarrow> b < c"
      unfolding closest_at_def by blast
    have notall: "\<not> (\<forall>k' \<in> set (ks @ [k]). ?g k' = None)"
      using someParsed by auto
    have keep: "closest_at fuzzy fd (ks @ [k]) i" if "?g k = None \<or> (\<exists>diff. ?g k = Some diff \<and> b \<le> diff)"
      unfolding closest_at_def
    proof (intro conjI exI[of _ b] allI impI)
      show "i < length (ks @ [k])" using b(1) by simp
      show "?g ((ks @ [k]) ! i) = Some b" using b(1,2) by (simp add: nth_append)
    next
      fix j c assume j: "j < length (ks @ [k])" and c: "?g ((ks @ [k]) ! j) = Some c"
      show "b \<le> c"
      proof (cases "j < length ks")
        case True
        with c b(3) show ?thesis by (simp add: nth_append)
      next
        case False
        with j have "j = length ks" by simp
        with c that show ?thesis by auto
      qed
    next
      fix j c assume j: "j < i" and c: "?g ((ks @ [k]) ! j) = Some c"
      with b(1) have "?g (ks ! j) = Some c" by (simp add: nth_append)
      with b(4) j show "b < c" by blast
    qed
    have nth_i: "(ks @ [k]) ! i = ks ! i" using b(1) by (simp add: nth_append)
    show ?thesis
    proof (cases "?g k")
      case None
      then have "closest_step fuzzy fd k ?st = ?st"
        by (simp add: st closest_step_alt)
      with keep None have "closest_at fuzzy fd (ks @ [k]) i \<and>
           fold (closest_step fuzzy fd) (ks @ [k]) (None, None, None)
             = (Some ((ks @ [k]) ! i), ?g ((ks @ [k]) ! i),
                Some (parse_date_label fuzzy ((ks @ [k]) ! i)))"
        by (simp add: step st nth_i)
      then have "\<exists>i. closest_at fuzzy fd (ks @ [k]) i \<and>
           fold (closest_step fuzzy fd) (ks @ [k]) (None, None, None)
             = (Some ((ks @ [k]) ! i), ?g ((ks @ [k]) ! i),
                Some (parse_date_label fuzzy ((ks @ [k]) ! i)))"
        by (rule exI)
      with notall show ?thesis by (simp only: if_False)
    next
      case (Some diff)
      show ?thesis
      proof (cases "diff < b")
        case True
        have "closest_at fuzzy fd (ks @ [k]) (length ks)"
          unfolding closest_at_def
        proof (intro conjI exI[of _ diff] allI impI)
          show "length ks < length (ks @ [k])" by simp
          show "?g ((ks @ [k]) ! length ks) = Some diff" using Some by simp
        next
          fix j c assume j: "j < length (ks @ [k])" and c: "?g ((ks @ [k]) ! j) = Some c"
          show "diff \<le> c"
          proof (cases "j < length ks")
            case jl: True
            with c have "?g (ks ! j) = Some c" by (simp add: nth_append)
            with b(3) jl have "b \<le> c" by blast
            with True show ?thesis by simp
          next
            case False
            with j have "j = length ks" by simp
            with c Some show ?thesis by simp
          qed
        next
          fix j c assume j: "j < length ks" and c: "?g ((ks @ [k]) ! j) = Some c"
          then have "?g (ks ! j) = Some c" by (simp add: nth_append)
          with b(3) j have "b \<le> c" by blast
          with True show "diff < c" by simp
        qed
        moreover have "closest_step fuzzy fd k ?st = (Some k, Some diff, Some (parse_date_label fuzzy k))"
          using Some True b(2) by (simp add: st closest_step_alt)
        ultimately have "closest_at fuzzy fd (ks @ [k]) (length ks) \<and>
           fold (closest_step fuzzy fd) (ks @ [k]) (None, None, None)
             = (Some ((ks @ [k]) ! length ks), ?g ((ks @ [k]) ! length ks),
                Some (parse_date_label fuzzy ((ks @ [k]) ! length ks)))"
          using Some by (simp add: step)
        then have "\<exists>i. closest_at fuzzy fd (ks @ [k]) i \<and>
           fold (closest_step fuzzy fd) (ks @ [k]) (None, None, None)
             = (Some ((ks @ [k]) ! i), ?g ((ks @ [k]) ! i),
                Some (parse_date_label fuzzy ((ks @ [k]) ! i)))"
          by (rule exI)
        with notall show ?thesis by (simp only: if_False)
      next
        case False
        then have "closest_step fuzzy fd k ?st = ?st"
          using Some b(2) by (simp add: st closest_step_alt)
        moreover from False Some have "closest_at fuzzy fd (ks @ [k]) i"
          by (intro keep) simp
        ultimately have "closest_at fuzzy fd (ks @ [k]) i \<and>
           fold (closest_step fuzzy fd) (ks @ [k]) (None, None, None)
             = (Some ((ks @ [k]) ! i), ?g ((ks @ [k]) ! i),
                Some (parse_date_label fuzzy ((ks @ [k]) ! i)))"
          by (simp add: step st nth_i)
        then have "\<exists>i. closest_at fuzzy fd (ks @ [k]) i \<and>
           fold (closest_step fuzzy fd) (ks @ [k]) (None, None, None)
             = (Some ((ks @ [k]) ! i), ?g ((ks @ [k]) ! i),
                Some (parse_date_label fuzzy ((ks @ [k]) ! i)))"
          by (rule exI)
        with notall show ?thesis by (simp only: if_False)
      qed
    qed
  qed
qed

lemma select_closest_date_fold:
  assumes "strptime filing_date_str = Some fd" "dv \<noteq> []"
  shows "select_closest_date fuzzy dv filing_date_str =
           (case fold (closest_step fuzzy fd) (dict_keys dv) (None, None, None) of
              (best_key, best_diff, best_canon) \<Rightarrow> Inr (best_key, best_canon))"
  using assms by (simp add: select_closest_date_def)

lemma example_distances:
  "strptime ''2024-04-01'' = Some \<lparr>year = 2024, month = 4, day = 1\<rparr>"
  "strptime ''2023-12-31'' = Some \<lparr>year = 2023, month = 12, day = 31\<rparr>"
  "strptime ''2024-03-31'' = Some \<lparr>year = 2024, month = 3, day = 31\<rparr>"
  "strptime ''2024-06-30'' = Some \<lparr>year = 2024, month = 6, day = 30\<rparr>"
  "\<bar>toordinal \<lparr>year = 2024, month = 4, day = 1\<rparr> - toordinal \<lparr>year = 2023, month = 12, day = 31\<rparr>\<bar> = 92"
  "\<bar>toordinal \<lparr>year = 2024, month = 4, day = 1\<rparr> - toordinal \<lparr>year = 2024, month = 3, day = 31\<rparr>\<bar> = 1"
  "\<bar>toordinal \<lparr>year = 2024, month = 4, day = 1\<rparr> - toordinal \<lparr>year = 2024, month = 6, day = 30\<rparr>\<bar> = 90"
  by code_simp+

lemma label_date_none_iff:
  "(label_date fuzzy k = None) = (label_distance fuzzy fd k = None)"
  by (simp add: label_distance_def split: option.splits)

lemma select_closest_date_none:
  assumes "strptime filing_date_str = Some fd"
    and "\<forall>k \<in> set (dict_keys dv). label_date fuzzy k = None"
  shows "select_closest_date fuzzy dv filing_date_str = Inr (None, None)"
proof (cases "dv = []")
  case True
  then show ?thesis by (simp add: select_closest_date_def)
next
  case False
  from assms(2) have "\<forall>k \<in> set (dict_keys dv). label_distance fuzzy fd k = None"
    by (simp add: label_date_none_iff[of fuzzy _ fd])
  with closest_fold[of "dict_keys dv" fuzzy fd]
  have "fold (closest_step fuzzy fd) (dict_keys dv) (None, None, None) = (None, None, None)"
    by simp
  then show ?thesis
    by (simp add: select_closest_date_fold[OF assms(1) False])
qed

lemma select_closest_date_some:
  assumes "strptime filing_date_str = Some fd"
    and "\<exists>k \<in> set (dict_keys dv). label_date fuzzy k \<noteq> None"
  shows "\<exists>i. closest_at fuzzy fd (dict_keys dv) i \<and>
            select_closest_date fuzzy dv filing_date_str =
              Inr (Some (dict_keys dv ! i), Some (parse_date_label fuzzy (dict_keys dv ! i)))"
proof -
  let ?ks = "dict_keys dv"
  from assms(2) have ne: "dv \<noteq> []" by (auto simp: dict_keys_def)
  from assms(2) have "\<not> (\<forall>k \<in> set ?ks. label_distance fuzzy fd k = None)"
    by (simp add: label_date_none_iff[of fuzzy _ fd])
  with closest_fold[of ?ks fuzzy fd] obtain i where i: "closest_at fuzzy fd ?ks i"
    "fold (closest_step fuzzy fd) ?ks (None, None, None)
       = (Some (?ks ! i), label_distance fuzzy fd (?ks ! i), Some (parse_date_label fuzzy (?ks ! i)))"
    by auto
  then have "closest_at fuzzy fd ?ks i \<and>
          select_closest_date fuzzy dv filing_date_str =
            Inr (Some (?ks ! i), Some (parse_date_label fuzzy (?ks ! i)))"
    by (simp add: select_closest_date_fold[OF assms(1) ne])
  then show ?thesis by (rule exI)
qed

text \<open>
  C1. With a filing date that parses, \<open>select_closest_date\<close> returns nothing when no
  label of the row has a date, and otherwise the label at the one position that is
  closest: its canonical form parses, no label with a date is nearer to the filing date,
  and every earlier label with a date is strictly farther (a tie goes to the label met
  first); labels without a date take no part. For labels that canonicalize to
  2023-12-31, 2024-03-31 and 2024-06-30, in any order, and the filing date 2024-04-01 the
  selection is the label of 2024-03-31.
\<close>

theorem select_closest_date_min:
  assumes "strptime filing_date_str = Some fd"
  shows
   "((\<forall>k \<in> set (dict_keys dv). label_date fuzzy k = None) \<longrightarrow>
       select_closest_date fuzzy dv filing_date_str = Inr (None, None)) \<and>
    ((\<exists>k \<in> set (dict_keys dv). label_date fuzzy k \<noteq> None) \<longrightarrow>
       (\<exists>i. closest_at fuzzy fd (dict_keys dv) i \<and>
            select_closest_date fuzzy dv filing_date_str =
              Inr (Some (dict_keys dv ! i), Some (parse_date_label fuzzy (dict_keys dv ! i))))) \<and>
    (\<forall>i i'. closest_at fuzzy fd (dict_keys dv) i \<and> closest_at fuzzy fd (dict_keys dv) i' \<longrightarrow> i = i') \<and>
    (filing_date_str = ''2024-04-01'' \<and> set (dict_keys dv) = {l1, l2, l3} \<and>
     parse_date_label fuzzy l1 = ''2023-12-31'' \<and> parse_date_label fuzzy l2 = ''2024-03-31'' \<and>
     parse_date_label fuzzy l3 = ''2024-06-30'' \<longrightarrow>
       select_closest_date fuzzy dv filing_date_str = Inr (Some l2, Some ''2024-03-31''))"
proof -
  let ?ks = "dict_keys dv"
  let ?g = "label_distance fuzzy fd"
  have none_iff: "(label_date fuzzy k = None) = (?g k = None)" for k
    by (rule label_date_none_iff)
  have A: "select_closest_date fuzzy dv filing_date_str = Inr (None, None)"
    if "\<forall>k \<in> set ?ks. label_date fuzzy k = None"
    using assms that by (rule select_closest_date_none)
  have B: "\<exists>i. closest_at fuzzy fd ?ks i \<and>
            select_closest_date fuzzy dv filing_date_str =
              Inr (Some (?ks ! i), Some (parse_date_label fuzzy (?ks ! i)))"
    if "\<exists>k \<in> set ?ks. label_date fuzzy k \<noteq> None"
    using assms that by (rule select_closest_date_some)
  have C: "\<forall>i i'. closest_at fuzzy fd ?ks i \<and> closest_at fuzzy fd ?ks i' \<longrightarrow> i = i'"
    using closest_at_unique by blast
  have D: "select_closest_date fuzzy dv filing_date_str = Inr (Some l2, Some ''2024-03-31'')"
    if ex: "filing_date_str = ''2024-04-01'' \<and> set ?ks = {l1, l2, l3} \<and>
     parse_date_label fuzzy l1 = ''2023-12-31'' \<and> parse_date_label fuzzy l2 = ''2024-03-31'' \<and>
     parse_date_label fuzzy l3 = ''2024-06-30''"
  proof -
    from ex assms have fd: "fd = \<lparr>year = 2024, month = 4, day = 1\<rparr>"
      by (simp add: example_distances)
    from ex have g: "?g l1 = Some 92" "?g l2 = Some 1" "?g l3 = Some 90"
      by (simp_all add: label_distance_def label_date_def fd example_distances)
    from ex g have "\<exists>k \<in> set ?ks. label_date fuzzy k \<noteq> None"
      by (auto simp: none_iff)
    from B[OF this] obtain i where i: "closest_at fuzzy fd ?ks i"
      and sel: "select_closest_date fuzzy dv filing_date_str =
              Inr (Some (?ks ! i), Some (parse_date_label fuzzy (?ks ! i)))"
      by blast
    from i obtain b where b: "i < length ?ks" "?g (?ks ! i) = Some b"
      "\<forall>j < length ?ks. \<forall>c. ?g (?ks ! j) = Some c \<longrightarrow> b \<le> c"
      unfolding closest_at_def by blast
    from ex have "l2 \<in> set ?ks" by simp
    then obtain j where "j < length ?ks" "?ks ! j = l2"
      by (auto simp: in_set_conv_nth)
    with b(3) g(2) have b1: "b \<le> 1" by auto
    from b(1) ex have "?ks ! i \<in> {l1, l2, l3}"
      using nth_mem by blast
    then consider "?ks ! i = l1" | "?ks ! i = l2" | "?ks ! i = l3" by blast
    then have "?ks ! i = l2"
    proof cases
      case 1
      with b(2) g(1) b1 show ?thesis by simp
    next
      case 2
      then show ?thesis .
    next
      case 3
      with b(2) g(3) b1 show ?thesis by simp
    qed
    with sel ex show ?thesis by simp
  qed
  from A B C D show ?thesis by blast
qed

theorem select_closest_date_min_witness:
  "select_closest_date strptime
     [(''2023-12-31 (10-K)'', ''100''), (''2024-03-31 (10-Q)'', ''120''), (''2024-06-30'', ''130'')]
     ''2024-04-01''
   = Inr (Some ''2024-03-31 (10-Q)'', Some ''2024-03-31'')"
proof -
  let ?dv = "[(''2023-12-31 (10-K)'', ''100''), (''2024-03-31 (10-Q)'', ''120''), (''2024-06-30'', ''130'')]"
  have f: "strptime ''2024-04-01'' = Some \<lparr>year = 2024, month = 4, day = 1\<rparr>"
    by code_simp
  have k: "set (dict_keys ?dv) = {''2023-12-31 (10-K)'', ''2024-03-31 (10-Q)'', ''2024-06-30''}"
    by (simp add: dict_keys_def)
  have c: "parse_date_label strptime ''2023-12-31 (10-K)'' = ''2023-12-31''"
    "parse_date_label strptime ''2024-03-31 (10-Q)'' = ''2024-03-31''"
    "parse_date_label strptime ''2024-06-30'' = ''2024-06-30''"
    by code_simp+
  from select_closest_date_min[OF f, of ?dv strptime "''2023-12-31 (10-K)''" "''2024-03-31 (10-Q)''" "''2024-06-30''"]
  have "set (dict_keys ?dv) = {''2023-12-31 (10-K)'', ''2024-03-31 (10-Q)'', ''2024-06-30''} \<and>
     parse_date_label strptime ''2023-12-31 (10-K)'' = ''2023-12-31'' \<and>
     parse_date_label strptime ''2024-03-31 (10-Q)'' = ''2024-03-31'' \<and>
     parse_date_label strptime ''2024-06-30'' = ''2024-06-30'' \<longrightarrow>
       select_closest_date strptime ?dv ''2024-04-01'' = Inr (Some ''2024-03-31 (10-Q)'', Some ''2024-03-31'')"
    by simp
  with k c show ?thesis by blast
qed

subsection \<open>The merge loop\<close>

lemma first_seen_snoc:
  "first_seen (ks @ [k]) = first_seen ks @ (if k \<in> set ks then [] else [k])"
proof -
  have 1: "filter (\<lambda>i. (ks @ [k]) ! i \<notin> set (take i (ks @ [k]))) [0..<length ks]
         = filter (\<lambda>i. ks ! i \<notin> set (take i ks)) [0..<length ks]"
    by (rule filter_cong) (auto simp: nth_append)
  have 2: "map (\<lambda>i. (ks @ [k]) ! i) (filter (\<lambda>i. ks ! i \<notin> set (take i ks)) [0..<length ks])
         = map (\<lambda>i. ks ! i) (filter (\<lambda>i. ks ! i \<notin> set (take i ks)) [0..<length ks])"
    by (rule map_cong) (auto simp: nth_append)
  have 3: "[0..<length (ks @ [k])] = [0..<length ks] @ [length ks]"
    by simp
  have 4: "map (\<lambda>i. (ks @ [k]) ! i) (filter (\<lambda>i. (ks @ [k]) ! i \<notin> set (take i (ks @ [k]))) [length ks])
         = (if k \<in> set ks then [] else [k])"
    by simp
  have "first_seen (ks @ [k])
        = map (\<lambda>i. (ks @ [k]) ! i) (filter (\<lambda>i. (ks @ [k]) ! i \<notin> set (take i (ks @ [k]))) [0..<length ks])
          @ map (\<lambda>i. (ks @ [k]) ! i) (filter (\<lambda>i. (ks @ [k]) ! i \<notin> set (take i (ks @ [k]))) [length ks])"
    unfolding first_seen_def 3 by (simp only: filter_append map_append)
  also have "\<dots> = first_seen ks @ (if k \<in> set ks then [] else [k])"
    by (simp only: 1 2 4 first_seen_def)
  finally show ?thesis .
qed

lemma first_seen_Nil: "first_seen [] = []"
  by (simp add: first_seen_def)

lemma set_first_seen: "set (first_seen ks) = set ks"
  by (induction ks rule: rev_induct) (auto simp: first_seen_snoc first_seen_Nil)

lemma distinct_first_seen: "distinct (first_seen ks)"
  by (induction ks rule: rev_induct) (auto simp: first_seen_snoc set_first_seen first_seen_Nil)

lemma fold_add_key: "fold add_key ks [] = first_seen ks"
  by (induction ks rule: rev_induct) (auto simp: first_seen_snoc add_key_def set_first_seen first_seen_Nil)

lemma first_seen_append_prefix: "prefix (first_seen as) (first_seen (as @ bs))"
proof (induction bs rule: rev_induct)
  case Nil
  show ?case by simp
next
  case (snoc b bs)
  have "first_seen (as @ bs @ [b]) = first_seen (as @ bs) @ (if b \<in> set (as @ bs) then [] else [b])"
    using first_seen_snoc[of "as @ bs" b] by simp
  with snoc show ?case
    by (metis prefix_order.trans prefixI)
qed

lemma first_seen_append_seen:
  "set bs \<subseteq> set as \<Longrightarrow> first_seen (as @ bs) = first_seen as"
proof (induction bs rule: rev_induct)
  case Nil
  show ?case by simp
next
  case (snoc b bs)
  have "first_seen (as @ bs @ [b]) = first_seen (as @ bs) @ (if b \<in> set (as @ bs) then [] else [b])"
    using first_seen_snoc[of "as @ bs" b] by simp
  with snoc show ?case by auto
qed

lemma select_closest_date_cases:
  assumes "strptime fdate = Some fd"
  shows "select_closest_date fuzzy dv fdate = Inr (None, None) \<or>
         (\<exists>raw canon val. select_closest_date fuzzy dv fdate = Inr (Some raw, Some canon) \<and>
            map_of dv raw = Some val)"
proof (cases "\<forall>k \<in> set (dict_keys dv). label_date fuzzy k = None")
  case True
  with select_closest_date_none[OF assms, of dv fuzzy] show ?thesis by blast
next
  case False
  with select_closest_date_some[OF assms, of dv fuzzy] obtain i where
    i: "closest_at fuzzy fd (dict_keys dv) i"
    and s: "select_closest_date fuzzy dv fdate =
              Inr (Some (dict_keys dv ! i), Some (parse_date_label fuzzy (dict_keys dv ! i)))"
    by blast
  from i have "i < length (dict_keys dv)" by (simp add: closest_at_def)
  then have "dict_keys dv ! i \<in> fst ` set dv"
    unfolding dict_keys_def using nth_mem by fastforce
  then obtain val where "map_of dv (dict_keys dv ! i) = Some val"
    by (metis map_of_eq_None_iff not_Some_eq)
  with s show ?thesis by blast
qed

lemma row_write_rev: "rev (row_write fuzzy fdate r) = row_write fuzzy fdate r"
  by (simp add: row_write_def split: sum.splits option.splits prod.splits)

lemma merge_row_result:
  assumes "strptime fdate = Some fd"
  shows "\<exists>m'. merge_row fuzzy fdate m r = Inr m' \<and>
           master_order m' = add_key (row_key r) (master_order m) \<and>
           cell m' = cell m ++ map_of (row_write fuzzy fdate r)"
proof -
  let ?key = "row_key r"
  let ?data = "if master_data m ?key = None then (master_data m)(?key \<mapsto> Map.empty)
               else master_data m"
  let ?order = "if ?key \<notin> set (master_order m) then master_order m @ [?key] else master_order m"
  have order: "?order = add_key ?key (master_order m)"
    by (simp add: add_key_def)
  have data_cell: "(case ?data k of None \<Rightarrow> None | Some cells \<Rightarrow> cells d) = cell m (k, d)" for k d
    by (simp add: cell_def split: option.splits)
  from select_closest_date_cases[OF assms, of fuzzy "date_values r"]
  show ?thesis
  proof
    assume sel: "select_closest_date fuzzy (date_values r) fdate = Inr (None, None)"
    then have w: "row_write fuzzy fdate r = []"
      by (simp add: row_write_def)
    let ?m' = "m\<lparr>master_order := ?order, master_data := ?data\<rparr>"
    have 1: "merge_row fuzzy fdate m r = Inr ?m'"
      using sel by (simp add: merge_row_def Let_def)
    have 2: "master_order ?m' = add_key ?key (master_order m)"
      using order by simp
    have 3: "cell ?m' = cell m ++ map_of (row_write fuzzy fdate r)"
    proof
      fix kd :: "master_key \<times> string"
      obtain k d where kd: "kd = (k, d)" by (cases kd)
      have "cell ?m' (k, d) = (case ?data k of None \<Rightarrow> None | Some cells \<Rightarrow> cells d)"
        by (simp add: cell_def split: option.splits)
      then show "cell ?m' kd = (cell m ++ map_of (row_write fuzzy fdate r)) kd"
        unfolding kd w data_cell by simp
    qed
    from 1 2 3 show ?thesis by blast
  next
    assume "\<exists>raw canon val. select_closest_date fuzzy (date_values r) fdate = Inr (Some raw, Some canon) \<and>
            map_of (date_values r) raw = Some val"
    then obtain raw canon val where
      sel: "select_closest_date fuzzy (date_values r) fdate = Inr (Some raw, Some canon)"
      and val: "map_of (date_values r) raw = Some val"
      by blast
    then have w: "row_write fuzzy fdate r = [((?key, canon), val)]"
      by (simp add: row_write_def)
    obtain cells where cells: "?data ?key = Some cells"
      by (cases "master_data m ?key") auto
    let ?m' = "\<lparr>master_order = ?order, master_data = ?data(?key \<mapsto> cells(canon \<mapsto> val)),
                all_dates = insert canon (all_dates m)\<rparr>"
    have 1: "merge_row fuzzy fdate m r = Inr ?m'"
      unfolding merge_row_def Let_def sel using val cells
      by (simp only: sum.case prod.case option.case)
    have 2: "master_order ?m' = add_key ?key (master_order m)"
      using order by simp
    have 3: "cell ?m' = cell m ++ map_of (row_write fuzzy fdate r)"
    proof
      fix kd :: "master_key \<times> string"
      obtain k d where kd: "kd = (k, d)" by (cases kd)
      show "cell ?m' kd = (cell m ++ map_of (row_write fuzzy fdate r)) kd"
      proof (cases "k = ?key")
        case True
        have "cells d = cell m (?key, d)"
          using data_cell[where k = "?key" and d = d] cells by simp
        then show ?thesis
          unfolding kd w using True by (simp add: cell_def split: option.splits)
      next
        case False
        have "cell ?m' (k, d) = (case ?data k of None \<Rightarrow> None | Some cells \<Rightarrow> cells d)"
          using False by (simp add: cell_def split: option.splits)
        then show ?thesis
          unfolding kd w data_cell using False by simp
      qed
    qed
    from 1 2 3 show ?thesis by blast
  qed
qed

lemma merge_rows_result:
  assumes "strptime fdate = Some fd"
  shows "\<exists>m'. merge_rows fuzzy fdate m rs = Inr m' \<and>
           master_order m' = fold add_key (map row_key rs) (master_order m) \<and>
           cell m' = cell m ++ map_of (rev (concat (map (row_write fuzzy fdate) rs)))"
proof (induction rs arbitrary: m)
  case Nil
  show ?case by simp
next
  case (Cons r rs)
  from merge_row_result[OF assms, of fuzzy m r] obtain m1 where
    m1: "merge_row fuzzy fdate m r = Inr m1"
        "master_order m1 = add_key (row_key r) (master_order m)"
        "cell m1 = cell m ++ map_of (row_write fuzzy fdate r)"
    by blast
  from Cons.IH[of m1] obtain m' where
    m': "merge_rows fuzzy fdate m1 rs = Inr m'"
        "master_order m' = fold add_key (map row_key rs) (master_order m1)"
        "cell m' = cell m1 ++ map_of (rev (concat (map (row_write fuzzy fdate) rs)))"
    by blast
  have 1: "merge_rows fuzzy fdate m (r # rs) = Inr m'"
    using m1(1) m'(1) by simp
  have 2: "master_order m' = fold add_key (map row_key (r # rs)) (master_order m)"
    using m1(2) m'(2) by simp
  have 3: "cell m' = cell m ++ map_of (rev (concat (map (row_write fuzzy fdate) (r # rs))))"
    unfolding m'(3) m1(3) by (simp add: row_write_rev)
  from 1 2 3 show ?case by blast
qed

lemma merge_loop_result:
  assumes "\<forall>s \<in> set stmts. strptime (filing_date s) \<noteq> None"
  shows "\<exists>m'. merge_loop fuzzy m stmts = Inr m' \<and>
           master_order m' = fold add_key (statement_keys stmts) (master_order m) \<and>
           cell m' = cell m ++ map_of (rev (cell_writes fuzzy stmts))"
  using assms
proof (induction stmts arbitrary: m)
  case Nil
  show ?case by (simp add: statement_keys_def cell_writes_def)
next
  case (Cons s ss)
  then obtain fd where fd: "strptime (filing_date s) = Some fd" by auto
  from merge_rows_result[OF fd, of fuzzy m "rows s"] obtain m1 where
    m1: "merge_rows fuzzy (filing_date s) m (rows s) = Inr m1"
        "master_order m1 = fold add_key (map row_key (rows s)) (master_order m)"
        "cell m1 = cell m ++ map_of (rev (concat (map (row_write fuzzy (filing_date s)) (rows s))))"
    by blast
  from Cons.prems have "\<forall>s \<in> set ss. strptime (filing_date s) \<noteq> None" by simp
  from Cons.IH[OF this, of m1] obtain m' where
    m': "merge_loop fuzzy m1 ss = Inr m'"
        "master_order m' = fold add_key (statement_keys ss) (master_order m1)"
        "cell m' = cell m1 ++ map_of (rev (cell_writes fuzzy ss))"
    by blast
  have 1: "merge_loop fuzzy m (s # ss) = Inr m'"
    using m1(1) m'(1) by simp
  have 2: "master_order m' = fold add_key (statement_keys (s # ss)) (master_order m)"
    using m1(2) m'(2) by (simp add: statement_keys_def)
  have 3: "cell m' = cell m ++ map_of (rev (cell_writes fuzzy (s # ss)))"
    unfolding m'(3) m1(3) by (simp add: cell_writes_def)
  from 1 2 3 show ?case by blast
qed

lemma cell_master_init: "cell master_init = Map.empty"
  by (rule ext) (simp add: cell_def master_init_def)

lemma map_of_rev_last:
  "map_of (rev ws) x = (case filter (\<lambda>w. fst w = x) ws of [] \<Rightarrow> None | w # ws' \<Rightarrow> Some (snd (last (w # ws'))))"
proof (induction ws rule: rev_induct)
  case Nil
  show ?case by simp
next
  case (snoc w ws)
  show ?case
  proof (cases "fst w = x")
    case True
    then have "filter (\<lambda>w. fst w = x) (ws @ [w]) = filter (\<lambda>w. fst w = x) ws @ [w]" by simp
    moreover have "map_of (rev (ws @ [w])) x = Some (snd w)"
      using True by (cases w) simp
    ultimately show ?thesis
      by (cases "filter (\<lambda>w. fst w = x) ws") simp_all
  next
    case False
    then have "map_of (rev (ws @ [w])) x = map_of (rev ws) x"
      by (cases w) simp
    with False snoc show ?thesis by simp
  qed
qed

lemma statement_keys_append:
  "statement_keys (a @ b) = statement_keys a @ statement_keys b"
  by (simp add: statement_keys_def)

text \<open>
  C4. With filing dates that parse, the merge returns, and \<open>master_order\<close> is the list
  of the keys of all rows at their first appearance: every key once, in the order in which
  the keys first appear across the statements. Statements processed afterwards only extend
  it (the earlier order is a prefix of the later one), and when they bring no new key the
  order stays as it is.
\<close>

theorem row_order_first_seen:
  assumes "\<forall>s \<in> set stmts. strptime (filing_date s) \<noteq> None"
  shows "\<exists>m. merge_loop fuzzy master_init stmts = Inr m \<and>
           master_order m = first_seen (statement_keys stmts) \<and>
           distinct (master_order m) \<and>
           set (master_order m) = set (statement_keys stmts) \<and>
           (\<forall>more. (\<forall>s \<in> set more. strptime (filing_date s) \<noteq> None) \<longrightarrow>
              (\<exists>m'. merge_loop fuzzy master_init (stmts @ more) = Inr m' \<and>
                    prefix (master_order m) (master_order m') \<and>
                    (set (statement_keys more) \<subseteq> set (statement_keys stmts)
                       \<longrightarrow> master_order m' = master_order m)))"
proof -
  have run: "\<exists>m. merge_loop fuzzy master_init ss = Inr m \<and>
                 master_order m = first_seen (statement_keys ss)"
    if "\<forall>s \<in> set ss. strptime (filing_date s) \<noteq> None" for ss
  proof -
    from merge_loop_result[OF that, of fuzzy master_init] obtain m where
      "merge_loop fuzzy master_init ss = Inr m"
      "master_order m = fold add_key (statement_keys ss) (master_order master_init)"
      by blast
    then have "merge_loop fuzzy master_init ss = Inr m \<and>
                 master_order m = first_seen (statement_keys ss)"
      by (simp add: master_init_def fold_add_key)
    then show ?thesis by (rule exI)
  qed
  from run[OF assms] obtain m where
    m: "merge_loop fuzzy master_init stmts = Inr m"
       "master_order m = first_seen (statement_keys stmts)"
    by blast
  have later: "\<exists>m'. merge_loop fuzzy master_init (stmts @ more) = Inr m' \<and>
                    prefix (master_order m) (master_order m') \<and>
                    (set (statement_keys more) \<subseteq> set (statement_keys stmts)
                       \<longrightarrow> master_order m' = master_order m)"
    if more: "\<forall>s \<in> set more. strptime (filing_date s) \<noteq> None" for more
  proof -
    from assms more have "\<forall>s \<in> set (stmts @ more). strptime (filing_date s) \<noteq> None"
      by auto
    from run[OF this] obtain m' where
      m': "merge_loop fuzzy master_init (stmts @ more) = Inr m'"
          "master_order m' = first_seen (statement_keys (stmts @ more))"
      by blast
    have "prefix (master_order m) (master_order m')"
      unfolding m(2) m'(2) statement_keys_append by (rule first_seen_append_prefix)
    moreover have "set (statement_keys more) \<subseteq> set (statement_keys stmts)
                       \<longrightarrow> master_order m' = master_order m"
      unfolding m(2) m'(2) statement_keys_append by (simp add: first_seen_append_seen)
    ultimately show ?thesis using m'(1) by blast
  qed
  have "distinct (master_order m)" "set (master_order m) = set (statement_keys stmts)"
    unfolding m(2) by (rule distinct_first_seen, rule set_first_seen)
  with m later show ?thesis by blast
qed

theorem row_order_first_seen_witness:
  "(case merge_loop strptime master_init
          [\<lparr>filing_key = ''10-Q_2024-05-01'', filing_date = ''2024-05-01'',
            rows = [section_row ''ASSETS'',
                    \<lparr>type = ''line'', section_name = ''ASSETS'', line_label = ''Cash'',
                     date_values = [(''2024-03-31'', ''100'')]\<rparr>]\<rparr>,
           \<lparr>filing_key = ''10-Q_2024-08-01'', filing_date = ''2024-08-01'',
            rows = [\<lparr>type = ''line'', section_name = ''ASSETS'', line_label = ''Cash'',
                     date_values = [(''2024-06-30'', ''120'')]\<rparr>,
                    \<lparr>type = ''line'', section_name = ''ASSETS'', line_label = ''Receivables'',
                     date_values = [(''2024-06-30'', ''50'')]\<rparr>]\<rparr>,
           \<lparr>filing_key = ''10-Q_2024-05-01'', filing_date = ''2024-05-01'',
            rows = [section_row ''ASSETS'',
                    \<lparr>type = ''line'', section_name = ''ASSETS'', line_label = ''Cash'',
                     date_values = [(''2024-03-31'', ''100'')]\<rparr>]\<rparr>] of
      Inl e \<Rightarrow> None
    | Inr m \<Rightarrow> Some (master_order m))
   = Some [(''section'', ''ASSETS'', []), (''line'', ''ASSETS'', ''Cash''),
           (''line'', ''ASSETS'', ''Receivables'')]"
proof -
  let ?f1 = "\<lparr>filing_key = ''10-Q_2024-05-01'', filing_date = ''2024-05-01'',
            rows = [section_row ''ASSETS'',
                    \<lparr>type = ''line'', section_name = ''ASSETS'', line_label = ''Cash'',
                     date_values = [(''2024-03-31'', ''100'')]\<rparr>]\<rparr>"
  let ?f2 = "\<lparr>filing_key = ''10-Q_2024-08-01'', filing_date = ''2024-08-01'',
            rows = [\<lparr>type = ''line'', section_name = ''ASSETS'', line_label = ''Cash'',
                     date_values = [(''2024-06-30'', ''120'')]\<rparr>,
                    \<lparr>type = ''line'', section_name = ''ASSETS'', line_label = ''Receivables'',
                     date_values = [(''2024-06-30'', ''50'')]\<rparr>]\<rparr>"
  have d: "strptime ''2024-05-01'' \<noteq> None" "strptime ''2024-08-01'' \<noteq> None"
    by code_simp+
  then have ok: "\<forall>s \<in> set [?f1, ?f2, ?f1]. strptime (filing_date s) \<noteq> None"
    by simp
  have k: "first_seen (statement_keys [?f1, ?f2, ?f1])
           = [(''section'', ''ASSETS'', []), (''line'', ''ASSETS'', ''Cash''),
              (''line'', ''ASSETS'', ''Receivables'')]"
    by code_simp
  from row_order_first_seen[OF ok, of strptime] obtain m where
    m: "merge_loop strptime master_init [?f1, ?f2, ?f1] = Inr m"
       "master_order m = first_seen (statement_keys [?f1, ?f2, ?f1])"
    by blast
  show ?thesis
    by (simp only: m(1) m(2) k sum.case)
qed

text \<open>
  C10. With filing dates that parse, the merge returns, and the cell of a key and a
  canonical date holds one value: that of the last row, in processing order (within a
  statement and across statements), that selected this date for this key; it is empty
  when no row did.
\<close>

theorem last_writer_wins:
  assumes "\<forall>s \<in> set stmts. strptime (filing_date s) \<noteq> None"
  shows "\<exists>m. merge_loop fuzzy master_init stmts = Inr m \<and>
           (\<forall>k d. cell m (k, d) =
              (case filter (\<lambda>w. fst w = (k, d)) (cell_writes fuzzy stmts) of
                 [] \<Rightarrow> None
               | w # ws \<Rightarrow> Some (snd (last (w # ws)))))"
proof -
  from merge_loop_result[OF assms, of fuzzy master_init] obtain m where
    m: "merge_loop fuzzy master_init stmts = Inr m"
       "cell m = cell master_init ++ map_of (rev (cell_writes fuzzy stmts))"
    by blast
  have "cell m (k, d) =
              (case filter (\<lambda>w. fst w = (k, d)) (cell_writes fuzzy stmts) of
                 [] \<Rightarrow> None
               | w # ws \<Rightarrow> Some (snd (last (w # ws))))" for k d
    unfolding m(2) cell_master_init by (simp only: empty_map_add map_of_rev_last)
  with m(1) show ?thesis by blast
qed

theorem last_writer_wins_witness:
  "(case merge_loop strptime master_init
          [\<lparr>filing_key = ''10-Q_2024-05-01'', filing_date = ''2024-05-01'',
            rows = [\<lparr>type = ''line'', section_name = ''ASSETS'', line_label = ''Cash'',
                     date_values = [(''2023-12-31'', ''90''), (''2024-03-31'', ''100'')]\<rparr>,
                    \<lparr>type = ''line'', section_name = ''ASSETS'', line_label = ''Cash'',
                     date_values = [(''2024-03-31'', ''110'')]\<rparr>]\<rparr>,
           \<lparr>filing_key = ''10-Q/A_2024-05-20'', filing_date = ''2024-05-20'',
            rows = [\<lparr>type = ''line'', section_name = ''ASSETS'', line_label = ''Cash'',
                     date_values = [(''2024-03-31 (restated)'', ''120'')]\<rparr>]\<rparr>] of
      Inl e \<Rightarrow> None
    | Inr m \<Rightarrow> Some (cell m ((''line'', ''ASSETS'', ''Cash''), ''2024-03-31''),
                     cell m ((''line'', ''ASSETS'', ''Cash''), ''2023-12-31'')))
   = Some (Some ''120'', None)"
proof -
  let ?f1 = "\<lparr>filing_key = ''10-Q_2024-05-01'', filing_date = ''2024-05-01'',
            rows = [\<lparr>type = ''line'', section_name = ''ASSETS'', line_label = ''Cash'',
                     date_values = [(''2023-12-31'', ''90''), (''2024-03-31'', ''100'')]\<rparr>,
                    \<lparr>type = ''line'', section_name = ''ASSETS'', line_label = ''Cash'',
                     date_values = [(''2024-03-31'', ''110'')]\<rparr>]\<rparr>"
  let ?f2 = "\<lparr>filing_key = ''10-Q/A_2024-05-20'', filing_date = ''2024-05-20'',
            rows = [\<lparr>type = ''line'', section_name = ''ASSETS'', line_label = ''Cash'',
                     date_values = [(''2024-03-31 (restated)'', ''120'')]\<rparr>]\<rparr>"
  let ?k = "(''line'', ''ASSETS'', ''Cash'')"
  have d: "strptime ''2024-05-01'' \<noteq> None" "strptime ''2024-05-20'' \<noteq> None"
    by code_simp+
  then have ok: "\<forall>s \<in> set [?f1, ?f2]. strptime (filing_date s) \<noteq> None"
    by simp
  have w: "cell_writes strptime [?f1, ?f2]
           = [((?k, ''2024-03-31''), ''100''), ((?k, ''2024-03-31''), ''110''),
              ((?k, ''2024-03-31''), ''120'')]"
    by code_simp
  from last_writer_wins[OF ok, of strptime] obtain m where
    m: "merge_loop strptime master_init [?f1, ?f2] = Inr m"
    and c: "\<And>k d. cell m (k, d) =
              (case filter (\<lambda>w. fst w = (k, d)) (cell_writes strptime [?f1, ?f2]) of
                 [] \<Rightarrow> None
               | w # ws \<Rightarrow> Some (snd (last (w # ws))))"
    by blast
  have c1: "cell m (?k, ''2024-03-31'') = Some ''120''"
    unfolding c w by simp
  have c2: "cell m (?k, ''2023-12-31'') = None"
    unfolding c w by simp
  show ?thesis
    by (simp only: m c1 c2 sum.case)
qed

subsection \<open>The date axis\<close>

lemma strptime_valid: "strptime s = Some d \<Longrightarrow> valid_date d"
  by (auto simp: strptime_def Let_def split: option.splits prod.splits if_splits)

lemma parse_dt_parsed:
  assumes "strptime s = Some d"
  shows "parse_dt s = (year d, month d, day d, 0, 0, 0, 0)" "parse_dt s < datetime_max"
proof -
  show p: "parse_dt s = (year d, month d, day d, 0, 0, 0, 0)"
    using assms by (simp add: parse_dt_def)
  from strptime_valid[OF assms] have "year d \<le> 9999" "month d \<le> 12" "day d \<le> 31"
    using days_in_month_le[of "year d" "month d"] by (auto simp: valid_date_def)
  then show "parse_dt s < datetime_max"
    unfolding p datetime_max_def by (simp add: less_prod_def)
qed

lemma parse_dt_unparsed: "strptime s = None \<Longrightarrow> parse_dt s = datetime_max"
  by (simp add: parse_dt_def)

lemma parse_dt_le_max: "parse_dt s \<le> datetime_max"
  by (cases "strptime s") (auto simp: parse_dt_unparsed dest: parse_dt_parsed(2))

lemma sorted_key_partition:
  fixes f :: "'a \<Rightarrow> 'b::linorder"
  assumes "sorted (map f ys)" "\<And>x y. P x \<Longrightarrow> \<not> P y \<Longrightarrow> f x < f y"
  shows "ys = filter P ys @ filter (\<lambda>y. \<not> P y) ys"
  using assms(1)
proof (induction ys)
  case Nil
  show ?case by simp
next
  case (Cons y ys)
  then have le: "\<forall>z \<in> set ys. f y \<le> f z" and IH: "ys = filter P ys @ filter (\<lambda>y. \<not> P y) ys"
    by simp_all
  show ?case
  proof (cases "P y")
    case True
    with IH show ?thesis by simp
  next
    case False
    have "\<forall>z \<in> set ys. \<not> P z"
    proof
      fix z assume z: "z \<in> set ys"
      show "\<not> P z"
      proof
        assume "P z"
        with False assms(2) have "f z < f y" by blast
        with le z show False by auto
      qed
    qed
    then have "filter P ys = []" "filter (\<lambda>y. \<not> P y) ys = ys"
      by (simp_all add: filter_empty_conv filter_id_conv)
    with False show ?thesis by simp
  qed
qed

lemma example_keys:
  "parse_dt ''2023-12-31'' = (2023, 12, 31, 0, 0, 0, 0)"
  "parse_dt ''2024-03-31'' = (2024, 3, 31, 0, 0, 0, 0)"
  "parse_dt ''2024-06-30'' = (2024, 6, 30, 0, 0, 0, 0)"
  by code_simp+

lemma sorted_dates_props:
  "sorted (map parse_dt (sorted_dates iter)) \<and>
   mset (sorted_dates iter) = mset iter \<and>
   (\<forall>k. filter (\<lambda>s. parse_dt s = k) (sorted_dates iter) = filter (\<lambda>s. parse_dt s = k) iter) \<and>
   (\<forall>s t d e. strptime s = Some d \<and> strptime t = Some e \<longrightarrow>
      (parse_dt s \<le> parse_dt t) =
        (year d < year e \<or> (year d = year e \<and>
           (month d < month e \<or> (month d = month e \<and> day d \<le> day e))))) \<and>
   (\<forall>s t d. strptime s = Some d \<and> strptime t = None \<longrightarrow>
      parse_dt s < parse_dt t \<and> parse_dt t = datetime_max) \<and>
   sorted_dates iter = filter (\<lambda>s. strptime s \<noteq> None) (sorted_dates iter)
                       @ filter (\<lambda>s. \<not> strptime s \<noteq> None) (sorted_dates iter) \<and>
   (distinct iter \<and> set iter = {''2024-06-30'', ''2023-12-31'', ''2024-03-31''} \<longrightarrow>
      sorted_dates iter = [''2023-12-31'', ''2024-03-31'', ''2024-06-30'']) \<and>
   (\<forall>m rs. final_rows m (sorted_dates iter) = Inr rs \<longrightarrow>
      hd rs = ''Line / Section'' # sorted_dates iter)"
proof (intro conjI allI impI)
  show "hd rs = ''Line / Section'' # sorted_dates iter"
    if "final_rows m (sorted_dates iter) = Inr rs" for m rs
    using that by (auto simp: final_rows_def split: sum.splits)
next
  show s: "sorted (map parse_dt (sorted_dates iter))"
    by (simp add: sorted_dates_def)
  show "mset (sorted_dates iter) = mset iter"
    by (simp add: sorted_dates_def)
  show "filter (\<lambda>s. parse_dt s = k) (sorted_dates iter) = filter (\<lambda>s. parse_dt s = k) iter" for k
    unfolding sorted_dates_def by (rule sort_key_stable)
  show "(parse_dt s \<le> parse_dt t) =
        (year d < year e \<or> (year d = year e \<and>
           (month d < month e \<or> (month d = month e \<and> day d \<le> day e))))"
    if "strptime s = Some d \<and> strptime t = Some e" for s t d e
    using that by (auto simp: parse_dt_def less_eq_prod_def)
  show "parse_dt s < parse_dt t" "parse_dt t = datetime_max"
    if "strptime s = Some d \<and> strptime t = None" for s t d
    using that parse_dt_parsed(2)[of s d] by (simp_all add: parse_dt_unparsed)
  show "sorted_dates iter = filter (\<lambda>s. strptime s \<noteq> None) (sorted_dates iter)
                       @ filter (\<lambda>s. \<not> strptime s \<noteq> None) (sorted_dates iter)"
  proof (rule sorted_key_partition[OF s])
    fix x y assume "strptime x \<noteq> None" "\<not> strptime y \<noteq> None"
    then show "parse_dt x < parse_dt y"
      using parse_dt_parsed(2)[of x] by (auto simp: parse_dt_unparsed)
  qed
  show "sorted_dates iter = [''2023-12-31'', ''2024-03-31'', ''2024-06-30'']"
    if ex: "distinct iter \<and> set iter = {''2024-06-30'', ''2023-12-31'', ''2024-03-31''}"
  proof -
    let ?T = "[''2023-12-31'', ''2024-03-31'', ''2024-06-30'']"
    have inj: "inj_on parse_dt (set iter)"
      using ex by (auto simp: inj_on_def example_keys)
    have set_eq: "set (sorted_dates iter) = set ?T"
      using ex by (auto simp: sorted_dates_def)
    have "distinct (map parse_dt (sorted_dates iter))"
      using ex inj by (simp add: distinct_map sorted_dates_def)
    moreover have "distinct (map parse_dt ?T)" "sorted (map parse_dt ?T)"
      by (simp_all add: example_keys less_eq_prod_def)
    moreover have "set (map parse_dt (sorted_dates iter)) = set (map parse_dt ?T)"
      using set_eq by simp
    ultimately have "map parse_dt (sorted_dates iter) = map parse_dt ?T"
      using s by (intro sorted_distinct_set_unique)
    moreover have "set (sorted_dates iter) \<union> set ?T = set iter"
      using ex by (auto simp: sorted_dates_def)
    then have "inj_on parse_dt (set (sorted_dates iter) \<union> set ?T)"
      using inj by (simp only:)
    ultimately show ?thesis
      by (rule inj_on_map_eq_map[THEN iffD1, rotated])
  qed
qed

lemma merge_row_keys:
  assumes "merge_row fuzzy fd m r = Inr m'"
    and "\<forall>k \<in> set (master_order m). master_data m k \<noteq> None"
  shows "\<forall>k \<in> set (master_order m'). master_data m' k \<noteq> None"
  using assms
  by (auto simp: merge_row_def Let_def split: sum.splits option.splits prod.splits if_splits)

lemma merge_row_dates:
  assumes "merge_row fuzzy fd m r = Inr m'"
  shows "all_dates m' = all_dates m \<union> (\<lambda>w. snd (fst w)) ` set (row_write fuzzy fd r)"
  using assms
  by (auto simp: merge_row_def row_write_def Let_def
           split: sum.splits option.splits prod.splits if_splits)

lemma merge_rows_keys_dates:
  assumes "merge_rows fuzzy fd m rs = Inr m'"
    and "\<forall>k \<in> set (master_order m). master_data m k \<noteq> None"
  shows "(\<forall>k \<in> set (master_order m'). master_data m' k \<noteq> None) \<and>
         all_dates m' = all_dates m \<union> (\<lambda>w. snd (fst w)) ` set (concat (map (row_write fuzzy fd) rs))"
  using assms
proof (induction rs arbitrary: m)
  case Nil
  then show ?case by simp
next
  case (Cons r rs)
  from Cons.prems(1) obtain m1 where m1: "merge_row fuzzy fd m r = Inr m1"
    and rest: "merge_rows fuzzy fd m1 rs = Inr m'"
    by (auto split: sum.splits)
  from merge_row_keys[OF m1 Cons.prems(2)] Cons.IH[OF rest]
  have "(\<forall>k \<in> set (master_order m'). master_data m' k \<noteq> None) \<and>
         all_dates m' = all_dates m1 \<union> (\<lambda>w. snd (fst w)) ` set (concat (map (row_write fuzzy fd) rs))"
    by blast
  then show ?case
    unfolding merge_row_dates[OF m1] by (simp add: image_Un Un_assoc)
qed

lemma merge_loop_keys_dates:
  assumes "merge_loop fuzzy m stmts = Inr m'"
    and "\<forall>k \<in> set (master_order m). master_data m k \<noteq> None"
  shows "(\<forall>k \<in> set (master_order m'). master_data m' k \<noteq> None) \<and>
         all_dates m' = all_dates m \<union> (\<lambda>w. snd (fst w)) ` set (cell_writes fuzzy stmts)"
  using assms
proof (induction stmts arbitrary: m)
  case Nil
  then show ?case by (simp add: cell_writes_def)
next
  case (Cons s ss)
  from Cons.prems(1) obtain m1 where m1: "merge_rows fuzzy (filing_date s) m (rows s) = Inr m1"
    and rest: "merge_loop fuzzy m1 ss = Inr m'"
    by (auto split: sum.splits)
  from merge_rows_keys_dates[OF m1 Cons.prems(2)]
  have k1: "\<forall>k \<in> set (master_order m1). master_data m1 k \<noteq> None"
    and d1: "all_dates m1 = all_dates m \<union>
        (\<lambda>w. snd (fst w)) ` set (concat (map (row_write fuzzy (filing_date s)) (rows s)))"
    by blast+
  from Cons.IH[OF rest k1]
  have "(\<forall>k \<in> set (master_order m'). master_data m' k \<noteq> None) \<and>
         all_dates m' = all_dates m1 \<union> (\<lambda>w. snd (fst w)) ` set (cell_writes fuzzy ss)"
    .
  moreover have "cell_writes fuzzy (s # ss)
      = concat (map (row_write fuzzy (filing_date s)) (rows s)) @ cell_writes fuzzy ss"
    by (simp add: cell_writes_def)
  ultimately show ?case
    unfolding d1 by (simp add: image_Un Un_assoc)
qed

lemma collect_map_Inr:
  assumes "\<forall>x \<in> set xs. \<exists>v. f x = Inr v"
  shows "\<exists>vs. collect (map f xs) = Inr vs \<and> length vs = length xs"
  using assms
proof (induction xs)
  case Nil
  show ?case by simp
next
  case (Cons x xs)
  then obtain v vs where "f x = Inr v" "collect (map f xs) = Inr vs" "length vs = length xs"
    by auto
  then have "collect (map f (x # xs)) = Inr (v # vs) \<and> length (v # vs) = length (x # xs)"
    by simp
  then show ?case by (rule exI)
qed

lemma final_rows_returns:
  assumes "\<forall>k \<in> set (master_order m). master_data m k \<noteq> None"
  shows "\<exists>body. final_rows m sdates = Inr ((''Line / Section'' # sdates) # body) \<and>
           length body = length (master_order m)"
proof -
  have "\<forall>k \<in> set (master_order m). \<exists>v. final_row m sdates k = Inr v"
    using assms by (auto simp: final_row_def split: prod.splits option.splits)
  from collect_map_Inr[OF this] obtain body where
    "collect (map (final_row m sdates) (master_order m)) = Inr body"
    "length body = length (master_order m)"
    by blast
  then have "final_rows m sdates = Inr ((''Line / Section'' # sdates) # body) \<and>
           length body = length (master_order m)"
    by (simp add: final_rows_def)
  then show ?thesis by (rule exI)
qed

text \<open>
  C5. With filing dates that parse, \<open>merge_statements_into_master\<close> returns a sheet
  whose first row is "Line / Section" followed by the date axis, with one more row for
  each key of the row order. The dates are those that the rows selected. Whatever the
  order \<open>set_iter\<close> in which the set of dates is iterated, the date axis is a
  rearrangement of it in ascending order of the sort key, and dates with the same key
  keep their order. For strings that parse, the key order is the calendar order (year,
  then month, then day); a string that does not parse has the key \<open>datetime.max\<close>,
  which is above the key of every string that parses, so these strings come last, and
  nothing is raised. When the dates are 2024-06-30, 2023-12-31 and 2024-03-31, the columns
  are 2023-12-31, 2024-03-31, 2024-06-30.
\<close>

theorem merged_date_axis_sorted:
  assumes "\<forall>s \<in> set stmts. strptime (filing_date s) \<noteq> None"
  shows
   "(\<exists>m rs.
       merge_loop fuzzy master_init stmts = Inr m \<and>
       merge_statements_into_master fuzzy set_iter stmts = Inr rs \<and>
       rs \<noteq> [] \<and>
       hd rs = ''Line / Section'' # sorted_dates (set_iter (all_dates m)) \<and>
       length rs = Suc (length (master_order m)) \<and>
       all_dates m = (\<lambda>w. snd (fst w)) ` set (cell_writes fuzzy stmts) \<and>
       sorted (map parse_dt (tl (hd rs))) \<and>
       mset (tl (hd rs)) = mset (set_iter (all_dates m)) \<and>
       (\<forall>k. filter (\<lambda>s. parse_dt s = k) (tl (hd rs))
             = filter (\<lambda>s. parse_dt s = k) (set_iter (all_dates m))) \<and>
       tl (hd rs) = filter (\<lambda>s. strptime s \<noteq> None) (tl (hd rs))
                    @ filter (\<lambda>s. \<not> strptime s \<noteq> None) (tl (hd rs)) \<and>
       (all_dates m = {''2024-06-30'', ''2023-12-31'', ''2024-03-31''} \<and>
        distinct (set_iter (all_dates m)) \<and> set (set_iter (all_dates m)) = all_dates m \<longrightarrow>
          hd rs = [''Line / Section'', ''2023-12-31'', ''2024-03-31'', ''2024-06-30''])) \<and>
    (\<forall>s t d e. strptime s = Some d \<and> strptime t = Some e \<longrightarrow>
       (parse_dt s \<le> parse_dt t) =
         (year d < year e \<or> (year d = year e \<and>
            (month d < month e \<or> (month d = month e \<and> day d \<le> day e))))) \<and>
    (\<forall>s t d. strptime s = Some d \<and> strptime t = None \<longrightarrow>
       parse_dt s < parse_dt t \<and> parse_dt t = datetime_max)"
proof -
  from merge_loop_result[OF assms, of fuzzy master_init] obtain m where
    m: "merge_loop fuzzy master_init stmts = Inr m"
    by blast
  have init: "\<forall>k \<in> set (master_order master_init). master_data master_init k \<noteq> None"
    by (simp add: master_init_def)
  from merge_loop_keys_dates[OF m init]
  have keys: "\<forall>k \<in> set (master_order m). master_data m k \<noteq> None"
    and dates: "all_dates m = (\<lambda>w. snd (fst w)) ` set (cell_writes fuzzy stmts)"
    by (simp_all add: master_init_def)
  let ?iter = "set_iter (all_dates m)"
  let ?sd = "sorted_dates ?iter"
  from final_rows_returns[OF keys, of ?sd] obtain body where
    body: "final_rows m ?sd = Inr ((''Line / Section'' # ?sd) # body)"
          "length body = length (master_order m)"
    by blast
  let ?rs = "(''Line / Section'' # ?sd) # body"
  have run: "merge_statements_into_master fuzzy set_iter stmts = Inr ?rs"
    by (simp add: merge_statements_into_master_def m body(1))
  note p = sorted_dates_props[of ?iter]
  have tl_hd: "tl (hd ?rs) = ?sd" by simp
  have ex: "hd ?rs = [''Line / Section'', ''2023-12-31'', ''2024-03-31'', ''2024-06-30'']"
    if "all_dates m = {''2024-06-30'', ''2023-12-31'', ''2024-03-31''} \<and>
        distinct ?iter \<and> set ?iter = all_dates m"
  proof -
    from that have d: "distinct ?iter" by blast
    from that have "set ?iter = all_dates m"
      "all_dates m = {''2024-06-30'', ''2023-12-31'', ''2024-03-31''}"
      by blast+
    then have "set ?iter = {''2024-06-30'', ''2023-12-31'', ''2024-03-31''}"
      by (rule trans)
    with d p have "?sd = [''2023-12-31'', ''2024-03-31'', ''2024-06-30'']"
      by blast
    then show ?thesis by simp
  qed
  have "merge_loop fuzzy master_init stmts = Inr m \<and>
       merge_statements_into_master fuzzy set_iter stmts = Inr ?rs \<and>
       ?rs \<noteq> [] \<and>
       hd ?rs = ''Line / Section'' # sorted_dates (set_iter (all_dates m)) \<and>
       length ?rs = Suc (length (master_order m)) \<and>
       all_dates m = (\<lambda>w. snd (fst w)) ` set (cell_writes fuzzy stmts) \<and>
       sorted (map parse_dt (tl (hd ?rs))) \<and>
       mset (tl (hd ?rs)) = mset (set_iter (all_dates m)) \<and>
       (\<forall>k. filter (\<lambda>s. parse_dt s = k) (tl (hd ?rs))
             = filter (\<lambda>s. parse_dt s = k) (set_iter (all_dates m))) \<and>
       tl (hd ?rs) = filter (\<lambda>s. strptime s \<noteq> None) (tl (hd ?rs))
                    @ filter (\<lambda>s. \<not> strptime s \<noteq> None) (tl (hd ?rs)) \<and>
       (all_dates m = {''2024-06-30'', ''2023-12-31'', ''2024-03-31''} \<and>
        distinct (set_iter (all_dates m)) \<and> set (set_iter (all_dates m)) = all_dates m \<longrightarrow>
          hd ?rs = [''Line / Section'', ''2023-12-31'', ''2024-03-31'', ''2024-06-30''])"
    unfolding tl_hd
  proof (intro conjI impI)
    show "merge_loop fuzzy master_init stmts = Inr m" by (rule m)
    show "merge_statements_into_master fuzzy set_iter stmts = Inr ?rs" by (rule run)
    show "?rs \<noteq> []" by simp
    show "hd ?rs = ''Line / Section'' # ?sd" by simp
    show "length ?rs = Suc (length (master_order m))" using body(2) by simp
    show "all_dates m = (\<lambda>w. snd (fst w)) ` set (cell_writes fuzzy stmts)" by (rule dates)
    show "sorted (map parse_dt ?sd)" using p by blast
    show "mset ?sd = mset ?iter" using p by blast
    show "\<forall>k. filter (\<lambda>s. parse_dt s = k) ?sd = filter (\<lambda>s. parse_dt s = k) ?iter"
      using p by blast
    show "?sd = filter (\<lambda>s. strptime s \<noteq> None) ?sd @ filter (\<lambda>s. \<not> strptime s \<noteq> None) ?sd"
      using p by blast
    show "hd ?rs = [''Line / Section'', ''2023-12-31'', ''2024-03-31'', ''2024-06-30'']"
      if "all_dates m = {''2024-06-30'', ''2023-12-31'', ''2024-03-31''} \<and>
        distinct ?iter \<and> set ?iter = all_dates m"
      using that by (rule ex)
  qed
  then have first: "\<exists>m rs.
       merge_loop fuzzy master_init stmts = Inr m \<and>
       merge_statements_into_master fuzzy set_iter stmts = Inr rs \<and>
       rs \<noteq> [] \<and>
       hd rs = ''Line / Section'' # sorted_dates (set_iter (all_dates m)) \<and>
       length rs = Suc (length (master_order m)) \<and>
       all_dates m = (\<lambda>w. snd (fst w)) ` set (cell_writes fuzzy stmts) \<and>
       sorted (map parse_dt (tl (hd rs))) \<and>
       mset (tl (hd rs)) = mset (set_iter (all_dates m)) \<and>
       (\<forall>k. filter (\<lambda>s. parse_dt s = k) (tl (hd rs))
             = filter (\<lambda>s. parse_dt s = k) (set_iter (all_dates m))) \<and>
       tl (hd rs) = filter (\<lambda>s. strptime s \<noteq> None) (tl (hd rs))
                    @ filter (\<lambda>s. \<not> strptime s \<noteq> None) (tl (hd rs)) \<and>
       (all_dates m = {''2024-06-30'', ''2023-12-31'', ''2024-03-31''} \<and>
        distinct (set_iter (all_dates m)) \<and> set (set_iter (all_dates m)) = all_dates m \<longrightarrow>
          hd rs = [''Line / Section'', ''2023-12-31'', ''2024-03-31'', ''2024-06-30''])"
    by blast
  from p have second: "\<forall>s t d e. strptime s = Some d \<and> strptime t = Some e \<longrightarrow>
       (parse_dt s \<le> parse_dt t) =
         (year d < year e \<or> (year d = year e \<and>
            (month d < month e \<or> (month d = month e \<and> day d \<le> day e))))"
    by blast
  from p have third: "\<forall>s t d. strptime s = Some d \<and> strptime t = None \<longrightarrow>
       parse_dt s < parse_dt t \<and> parse_dt t = datetime_max"
    by blast
  from first second third show ?thesis by (intro conjI)
qed


theorem merged_date_axis_sorted_witness:
  "(case merge_statements_into_master strptime
           (\<lambda>S. filter (\<lambda>x. x \<in> S) [''2024-06-30'', ''2023-12-31'', ''2024-03-31''])
           [\<lparr>filing_key = ''10-K_2024-01-15'', filing_date = ''2024-01-15'',
             rows = [\<lparr>type = ''line'', section_name = ''ASSETS'', line_label = ''Cash'',
                      date_values = [(''2023-12-31'', ''90'')]\<rparr>]\<rparr>,
            \<lparr>filing_key = ''10-Q_2024-07-20'', filing_date = ''2024-07-20'',
             rows = [\<lparr>type = ''line'', section_name = ''ASSETS'', line_label = ''Cash'',
                      date_values = [(''2024-06-30'', ''120'')]\<rparr>]\<rparr>,
            \<lparr>filing_key = ''10-Q_2024-04-20'', filing_date = ''2024-04-20'',
             rows = [\<lparr>type = ''line'', section_name = ''ASSETS'', line_label = ''Cash'',
                      date_values = [(''2024-03-31'', ''100'')]\<rparr>]\<rparr>] of
      Inl e \<Rightarrow> None
    | Inr rs \<Rightarrow> Some (hd rs))
   = Some [''Line / Section'', ''2023-12-31'', ''2024-03-31'', ''2024-06-30'']"
proof -
  define it :: "string set \<Rightarrow> string list" where
    "it = (\<lambda>S. filter (\<lambda>x. x \<in> S) [''2024-06-30'', ''2023-12-31'', ''2024-03-31''])"
  define stmts where "stmts =
           [\<lparr>filing_key = ''10-K_2024-01-15'', filing_date = ''2024-01-15'',
             rows = [\<lparr>type = ''line'', section_name = ''ASSETS'', line_label = ''Cash'',
                      date_values = [(''2023-12-31'', ''90'')]\<rparr>]\<rparr>,
            \<lparr>filing_key = ''10-Q_2024-07-20'', filing_date = ''2024-07-20'',
             rows = [\<lparr>type = ''line'', section_name = ''ASSETS'', line_label = ''Cash'',
                      date_values = [(''2024-06-30'', ''120'')]\<rparr>]\<rparr>,
            \<lparr>filing_key = ''10-Q_2024-04-20'', filing_date = ''2024-04-20'',
             rows = [\<lparr>type = ''line'', section_name = ''ASSETS'', line_label = ''Cash'',
                      date_values = [(''2024-03-31'', ''100'')]\<rparr>]\<rparr>]"
  have d: "strptime ''2024-01-15'' \<noteq> None" "strptime ''2024-07-20'' \<noteq> None"
    "strptime ''2024-04-20'' \<noteq> None"
    by code_simp+
  then have ok: "\<forall>s \<in> set stmts. strptime (filing_date s) \<noteq> None"
    by (simp add: stmts_def)
  have cw: "(\<lambda>w. snd (fst w)) ` set (cell_writes strptime stmts)
            = {''2024-06-30'', ''2023-12-31'', ''2024-03-31''}"
  proof -
    have "cell_writes strptime stmts
          = [(((''line'', ''ASSETS'', ''Cash''), ''2023-12-31''), ''90''),
             (((''line'', ''ASSETS'', ''Cash''), ''2024-06-30''), ''120''),
             (((''line'', ''ASSETS'', ''Cash''), ''2024-03-31''), ''100'')]"
      unfolding stmts_def by code_simp
    then show ?thesis by auto
  qed
  have it: "distinct (it {''2024-06-30'', ''2023-12-31'', ''2024-03-31''}) \<and>
            set (it {''2024-06-30'', ''2023-12-31'', ''2024-03-31''})
              = {''2024-06-30'', ''2023-12-31'', ''2024-03-31''}"
    by (simp add: it_def)
  from merged_date_axis_sorted[OF ok, of strptime it]
  obtain m :: master and rs where
    run: "merge_statements_into_master strptime it stmts = Inr rs"
    and dates: "all_dates m = (\<lambda>w. snd (fst w)) ` set (cell_writes strptime stmts)"
    and ex: "all_dates m = {''2024-06-30'', ''2023-12-31'', ''2024-03-31''} \<and>
        distinct (it (all_dates m)) \<and> set (it (all_dates m)) = all_dates m \<longrightarrow>
          hd rs = [''Line / Section'', ''2023-12-31'', ''2024-03-31'', ''2024-06-30'']"
    by (elim exE conjE) (rule that; assumption)
  from dates cw have a: "all_dates m = {''2024-06-30'', ''2023-12-31'', ''2024-03-31''}"
    by (rule trans)
  from it have "distinct (it (all_dates m)) \<and> set (it (all_dates m)) = all_dates m"
    unfolding a .
  with a ex have h: "hd rs = [''Line / Section'', ''2023-12-31'', ''2024-03-31'', ''2024-06-30'']"
    by blast
  have "(case merge_statements_into_master strptime it stmts of
           Inl e \<Rightarrow> None | Inr rs \<Rightarrow> Some (hd rs))
        = Some [''Line / Section'', ''2023-12-31'', ''2024-03-31'', ''2024-06-30'']"
    by (simp only: run sum.case h)
  then show ?thesis
    unfolding it_def stmts_def .
qed


subsection \<open>Section headings\<close>

lemma seg_step_heading:
  assumes "df ! s \<noteq> []" "is_section_heading (df ! s)"
  shows "seg_step dl df s (cur, out) = (heading_name (df ! s), out @ [section_row (heading_name (df ! s))])"
  using assms by (simp add: seg_step_def heading_name_def Let_def)

lemma seg_step_line:
  assumes "df ! t \<noteq> []" "\<not> is_section_heading (df ! t)"
  shows "seg_step dl df t (cur, out) = (cur, out @ [line_item dl t cur (df ! t)])"
  using assms by (simp add: seg_step_def Let_def)

lemma seg_step_out:
  "seg_step dl df i (cur, out) =
     (fst (seg_step dl df i (cur, [])), out @ snd (seg_step dl df i (cur, [])))"
  by (simp add: seg_step_def Let_def)

lemma fold_seg_out:
  "fold (seg_step dl df) is (cur, out) =
     (fst (fold (seg_step dl df) is (cur, [])), out @ snd (fold (seg_step dl df) is (cur, [])))"
proof (induction "is" arbitrary: cur out)
  case Nil
  show ?case by simp
next
  case (Cons i "is")
  obtain c1 o1 where s1: "seg_step dl df i (cur, []) = (c1, o1)"
    by (cases "seg_step dl df i (cur, [])")
  then have s2: "seg_step dl df i (cur, out) = (c1, out @ o1)"
    using seg_step_out[of dl df i cur out] by simp
  have "fold (seg_step dl df) (i # is) (cur, out) = fold (seg_step dl df) is (c1, out @ o1)"
    by (simp add: s2)
  also have "\<dots> = (fst (fold (seg_step dl df) is (c1, [])),
                     (out @ o1) @ snd (fold (seg_step dl df) is (c1, [])))"
    by (rule Cons.IH)
  finally have a: "fold (seg_step dl df) (i # is) (cur, out)
      = (fst (fold (seg_step dl df) is (c1, [])), (out @ o1) @ snd (fold (seg_step dl df) is (c1, [])))" .
  have "fold (seg_step dl df) (i # is) (cur, []) = fold (seg_step dl df) is (c1, o1)"
    by (simp add: s1)
  also have "\<dots> = (fst (fold (seg_step dl df) is (c1, [])),
                     o1 @ snd (fold (seg_step dl df) is (c1, [])))"
    by (rule Cons.IH)
  finally have b: "fold (seg_step dl df) (i # is) (cur, [])
      = (fst (fold (seg_step dl df) is (c1, [])), o1 @ snd (fold (seg_step dl df) is (c1, [])))" .
  show ?case
    unfolding a b by simp
qed

lemma fold_seg_lines:
  assumes "\<forall>t \<in> set is. df ! t \<noteq> [] \<and> \<not> is_section_heading (df ! t)"
  shows "fold (seg_step dl df) is (cur, out) = (cur, out @ map (\<lambda>t. line_item dl t cur (df ! t)) is)"
  using assms
proof (induction "is" arbitrary: out)
  case Nil
  show ?case by simp
next
  case (Cons i "is")
  then have "seg_step dl df i (cur, out) = (cur, out @ [line_item dl i cur (df ! i)])"
    by (simp add: seg_step_line)
  moreover from Cons have "fold (seg_step dl df) is (cur, out @ [line_item dl i cur (df ! i)])
      = (cur, (out @ [line_item dl i cur (df ! i)]) @ map (\<lambda>t. line_item dl t cur (df ! t)) is)"
    by simp
  ultimately show ?case by simp
qed

lemma seg_run_split:
  assumes "a \<le> b" "b \<le> c"
  shows "seg_run dl df a c st = seg_run dl df b c (seg_run dl df a b st)"
proof -
  from assms(2) obtain k where c: "c = b + k"
    using le_Suc_ex by blast
  have "[a..<c] = [a..<b] @ [b..<c]"
    unfolding c using assms(1) by (rule upt_add_eq_append)
  then show ?thesis
    by (simp add: seg_run_def)
qed

lemma line_item_section:
  "type (line_item dl t cur rd) = ''line'' \<and>
   section_name (line_item dl t cur rd) =
     adjust_line_section \<lparr>type = ''line'', section_name = cur,
                          line_label = line_label (line_item dl t cur rd),
                          date_values = date_values (line_item dl t cur rd)\<rparr>"
  by (simp add: line_item_def Let_def)

text \<open>
  C3 (as amended). A data row that is a section heading (at most two non-blank cells, and
  a trimmed first cell that is more than 70 percent capitals among its letters or ends
  with a colon) yields a section row named by the first cell without its trailing colons,
  after the rows of the data rows before it. Each row after it, up to the next heading,
  yields a line row, in order; its section is what the override rules make of the section
  of the heading: the name of the heading itself unless the label of the line matches one
  of the rules of \<open>adjust_line_section\<close>.
\<close>

theorem section_heading_inherited:
  assumes "\<not> df_empty df" "2 \<le> shape1 df"
    and "date_row_index df < s" "s < e" "e \<le> length df"
    and "df ! s \<noteq> []" "is_section_heading (df ! s)"
    and "\<forall>t. s < t \<and> t < e \<longrightarrow> df ! t \<noteq> [] \<and> \<not> is_section_heading (df ! t)"
  shows
   "extract_line_items_with_sections df =
      snd (seg_run (header_labels df) df (date_row_index df + 1) s ([], []))
      @ section_row (heading_name (df ! s))
      # map (\<lambda>t. line_item (header_labels df) t (heading_name (df ! s)) (df ! t)) [s + 1..<e]
      @ snd (seg_run (header_labels df) df e (length df) (heading_name (df ! s), [])) \<and>
    (\<forall>t. s < t \<and> t < e \<longrightarrow>
       (let r = line_item (header_labels df) t (heading_name (df ! s)) (df ! t) in
        type r = ''line'' \<and>
        section_name r = adjust_line_section (r\<lparr>section_name := heading_name (df ! s)\<rparr>) \<and>
        (\<not> ci_contains (line_label r) ''accounts payable'' \<and>
         \<not> ci_contains (line_label r) ''accrued and other current liabilities'' \<and>
         \<not> ci_startswith (line_label r) ''common stock, $0.01 par value''
           \<longrightarrow> section_name r = heading_name (df ! s))))"
proof (intro conjI allI impI)
  let ?dl = "header_labels df"
  let ?h = "date_row_index df"
  let ?n = "heading_name (df ! s)"
  obtain c0 pre where pre: "seg_run ?dl df (?h + 1) s ([], []) = (c0, pre)"
    by (cases "seg_run ?dl df (?h + 1) s ([], [])")
  have sec: "seg_run ?dl df s (s + 1) (c0, pre) = (?n, pre @ [section_row ?n])"
    using assms(6,7) by (simp add: seg_run_def seg_step_heading)
  have lines: "seg_run ?dl df (s + 1) e (?n, pre @ [section_row ?n])
      = (?n, (pre @ [section_row ?n]) @ map (\<lambda>t. line_item ?dl t ?n (df ! t)) [s + 1..<e])"
    unfolding seg_run_def
  proof (rule fold_seg_lines)
    show "\<forall>t \<in> set [s + 1..<e]. df ! t \<noteq> [] \<and> \<not> is_section_heading (df ! t)"
      using assms(8) by simp
  qed
  have rest: "seg_run ?dl df e (length df) (?n, out)
      = (fst (seg_run ?dl df e (length df) (?n, [])), out @ snd (seg_run ?dl df e (length df) (?n, [])))"
    for out
    unfolding seg_run_def by (rule fold_seg_out)
  have "seg_run ?dl df (?h + 1) (length df) ([], [])
      = seg_run ?dl df s (length df) (seg_run ?dl df (?h + 1) s ([], []))"
    using assms(3,4,5) by (intro seg_run_split) simp_all
  also have "\<dots> = seg_run ?dl df (s + 1) (length df) (seg_run ?dl df s (s + 1) (c0, pre))"
    unfolding pre using assms(4,5) by (intro seg_run_split) simp_all
  also have "\<dots> = seg_run ?dl df e (length df)
                     (seg_run ?dl df (s + 1) e (?n, pre @ [section_row ?n]))"
    unfolding sec using assms(4,5) by (intro seg_run_split) simp_all
  also have "\<dots> = seg_run ?dl df e (length df)
                     (?n, (pre @ [section_row ?n]) @ map (\<lambda>t. line_item ?dl t ?n (df ! t)) [s + 1..<e])"
    by (simp only: lines)
  also have "\<dots> = (fst (seg_run ?dl df e (length df) (?n, [])),
                     ((pre @ [section_row ?n]) @ map (\<lambda>t. line_item ?dl t ?n (df ! t)) [s + 1..<e])
                     @ snd (seg_run ?dl df e (length df) (?n, [])))"
    by (rule rest)
  finally have "snd (seg_run ?dl df (?h + 1) (length df) ([], []))
      = pre @ section_row ?n # map (\<lambda>t. line_item ?dl t ?n (df ! t)) [s + 1..<e]
        @ snd (seg_run ?dl df e (length df) (?n, []))"
    by (simp only: snd_conv append_assoc append.simps)
  then show "extract_line_items_with_sections df =
      snd (seg_run ?dl df (?h + 1) s ([], []))
      @ section_row ?n
      # map (\<lambda>t. line_item ?dl t ?n (df ! t)) [s + 1..<e]
      @ snd (seg_run ?dl df e (length df) (?n, []))"
    using assms(1,2) pre by (simp add: extract_line_items_with_sections_def)
next
  fix t assume "s < t \<and> t < e"
  let ?r = "line_item (header_labels df) t (heading_name (df ! s)) (df ! t)"
  have ty: "type ?r = ''line''"
    by (simp add: line_item_def Let_def)
  have adj: "section_name ?r = adjust_line_section (?r\<lparr>section_name := heading_name (df ! s)\<rparr>)"
    by (simp add: line_item_def Let_def)
  have keep: "section_name ?r = heading_name (df ! s)"
    if "\<not> ci_contains (line_label ?r) ''accounts payable'' \<and>
         \<not> ci_contains (line_label ?r) ''accrued and other current liabilities'' \<and>
         \<not> ci_startswith (line_label ?r) ''common stock, $0.01 par value''"
  proof -
    let ?q = "?r\<lparr>section_name := heading_name (df ! s)\<rparr>"
    have "type ?q = ''line''" "line_label ?q = line_label ?r" "section_name ?q = heading_name (df ! s)"
      using ty by simp_all
    with that adjust_line_section_keep[of ?q] have "adjust_line_section ?q = heading_name (df ! s)"
      by simp
    with adj show ?thesis by simp
  qed
  from ty adj keep
  show "let r = ?r in
        type r = ''line'' \<and>
        section_name r = adjust_line_section (r\<lparr>section_name := heading_name (df ! s)\<rparr>) \<and>
        (\<not> ci_contains (line_label r) ''accounts payable'' \<and>
         \<not> ci_contains (line_label r) ''accrued and other current liabilities'' \<and>
         \<not> ci_startswith (line_label r) ''common stock, $0.01 par value''
           \<longrightarrow> section_name r = heading_name (df ! s))"
    unfolding Let_def by blast
qed

theorem section_heading_inherited_witness:
  "extract_line_items_with_sections
     [[Some [], Some ''Mar. 31, 2024'', Some ''Dec. 31, 2023''],
      [Some ''CURRENT ASSETS:'', Some [], Some []],
      [Some ''Cash'', Some ''100'', Some ''120'']]
   = [\<lparr>type = ''section'', section_name = ''CURRENT ASSETS'', line_label = [], date_values = []\<rparr>,
      \<lparr>type = ''line'', section_name = ''CURRENT ASSETS'', line_label = ''Cash'',
       date_values = [(''Mar. 31, 2024'', ''100''), (''Dec. 31, 2023'', ''120'')]\<rparr>]"
proof -
  let ?df = "[[Some [], Some ''Mar. 31, 2024'', Some ''Dec. 31, 2023''],
      [Some ''CURRENT ASSETS:'', Some [], Some []],
      [Some ''Cash'', Some ''100'', Some ''120'']]"
  have 1: "\<not> df_empty ?df" by code_simp
  have 2: "2 \<le> shape1 ?df" by code_simp
  have 3: "date_row_index ?df < 1" by code_simp
  have 4: "(1::nat) < 3" by simp
  have 5: "3 \<le> length ?df" by simp
  have 6: "?df ! 1 \<noteq> []" by simp
  have 7: "is_section_heading (?df ! 1)" by code_simp
  have l: "?df ! 2 \<noteq> [] \<and> \<not> is_section_heading (?df ! 2)" by code_simp
  have 8: "\<forall>t. 1 < t \<and> t < 3 \<longrightarrow> ?df ! t \<noteq> [] \<and> \<not> is_section_heading (?df ! t)"
  proof (intro allI impI)
    fix t :: nat assume "1 < t \<and> t < 3"
    then have t: "t = 2" by simp
    show "?df ! t \<noteq> [] \<and> \<not> is_section_heading (?df ! t)"
      unfolding t by (rule l)
  qed
  have rhs: "snd (seg_run (header_labels ?df) ?df (date_row_index ?df + 1) 1 ([], []))
      @ section_row (heading_name (?df ! 1))
      # map (\<lambda>t. line_item (header_labels ?df) t (heading_name (?df ! 1)) (?df ! t)) [1 + 1..<3]
      @ snd (seg_run (header_labels ?df) ?df 3 (length ?df) (heading_name (?df ! 1), []))
    = [\<lparr>type = ''section'', section_name = ''CURRENT ASSETS'', line_label = [], date_values = []\<rparr>,
      \<lparr>type = ''line'', section_name = ''CURRENT ASSETS'', line_label = ''Cash'',
       date_values = [(''Mar. 31, 2024'', ''100''), (''Dec. 31, 2023'', ''120'')]\<rparr>]"
    by code_simp
  from section_heading_inherited[OF 1 2 3 4 5 6 7 8]
  have "extract_line_items_with_sections ?df
    = snd (seg_run (header_labels ?df) ?df (date_row_index ?df + 1) 1 ([], []))
      @ section_row (heading_name (?df ! 1))
      # map (\<lambda>t. line_item (header_labels ?df) t (heading_name (?df ! 1)) (?df ! t)) [1 + 1..<3]
      @ snd (seg_run (header_labels ?df) ?df 3 (length ?df) (heading_name (?df ! 1), []))"
    by (rule conjunct1)
  then show ?thesis
    by (simp only: rhs)
qed

text \<open>
  C3 as stated fails where an override rule applies: the line after the heading
  "LONG-TERM LIABILITIES:" whose label is "Accrued and other current liabilities" is
  emitted with the section "Current liabilities", not with the section of the heading.
\<close>

theorem section_heading_override_counterexample:
  "extract_line_items_with_sections
     [[Some [], Some ''Mar. 31, 2024'', Some ''Dec. 31, 2023''],
      [Some ''LONG-TERM LIABILITIES:'', Some [], Some []],
      [Some ''Accrued and other current liabilities'', Some ''5'', Some ''6'']]
   = [\<lparr>type = ''section'', section_name = ''LONG-TERM LIABILITIES'', line_label = [],
       date_values = []\<rparr>,
      \<lparr>type = ''line'', section_name = ''Current liabilities'',
       line_label = ''Accrued and other current liabilities'',
       date_values = [(''Mar. 31, 2024'', ''5''), (''Dec. 31, 2023'', ''6'')]\<rparr>]"
  by code_simp

end
